theory Spec2Isabelle
  imports Complex_Main "HOL-Library.Word"
begin

unbundle bit_operations_syntax

section \<open>The transport envelope: \<open>Rtcm::Rtcm_Message\<close> (rtcm.h)\<close>

text \<open>
  \<open>Rtcm_Message\<close> holds a fixed array of \<open>header_length + max_body_length\<close> chars and
  the current body length, a \<open>std::size_t\<close> (64 bits here). The array is a char list
  whose length never changes; every operation below overwrites a prefix or a slice.
\<close>

definition header_length :: nat where
  "header_length = 6"

definition max_body_length :: nat where
  "max_body_length = 1029"

record Rtcm_Message =
  m_data :: string
  m_body_length :: "64 word"

text \<open>The default constructor: a value-initialised array and \<open>body_length_(0)\<close>.\<close>

definition new_Rtcm_Message :: Rtcm_Message where
  "new_Rtcm_Message =
     \<lparr>m_data = replicate (header_length + max_body_length) (CHR 0x00), m_body_length = 0\<rparr>"

text \<open>\<open>length()\<close>, \<open>body()\<close> and the two \<open>body_length\<close> members.\<close>

definition msg_length :: "Rtcm_Message \<Rightarrow> nat" where
  "msg_length m = header_length + unat (m_body_length m)"

definition body :: "Rtcm_Message \<Rightarrow> string" where
  "body m = drop header_length (m_data m)"

definition body_length :: "64 word \<Rightarrow> Rtcm_Message \<Rightarrow> Rtcm_Message" where
  "body_length new_length m =
     (let m1 = m\<lparr>m_body_length := new_length\<rparr>
      in if m_body_length m1 > of_nat max_body_length
         then m1\<lparr>m_body_length := of_nat max_body_length\<rparr>
         else m1)"

subsection \<open>\<open>std::stoi\<close> on the length field\<close>

text \<open>
  \<open>decode_header\<close> hands the four bytes after \<open>GS\<close> to \<open>std::stoi\<close>, which is
  \<open>strtol\<close> in base 10: blanks are skipped, one sign is optional, then the longest run
  of decimal digits is read and whatever follows is ignored. No digit at that point
  throws \<open>std::invalid_argument\<close>; a value outside \<open>int\<close> throws \<open>std::out_of_range\<close>.
\<close>

datatype stoi_exception = invalid_argument | out_of_range

definition isspace :: "char \<Rightarrow> bool" where
  "isspace c = (c = CHR '' '' \<or> c = CHR 0x09 \<or> c = CHR 0x0A \<or> c = CHR 0x0B
                \<or> c = CHR 0x0C \<or> c = CHR 0x0D)"

definition isdigit :: "char \<Rightarrow> bool" where
  "isdigit c = (48 \<le> (of_char c :: nat) \<and> (of_char c :: nat) \<le> 57)"

definition digit_value :: "char \<Rightarrow> nat" where
  "digit_value c = of_char c - 48"

text \<open>The digits are accumulated left to right, as \<open>strtol\<close> does.\<close>

fun digits_value :: "nat \<Rightarrow> string \<Rightarrow> nat" where
  "digits_value acc [] = acc"
| "digits_value acc (c # cs) = digits_value (10 * acc + digit_value c) cs"

definition strip_sign :: "string \<Rightarrow> bool \<times> string" where
  "strip_sign s =
     (case s of
        [] \<Rightarrow> (False, [])
      | c # r \<Rightarrow> if c = CHR ''-'' then (True, r)
                 else if c = CHR ''+'' then (False, r)
                 else (False, s))"

definition stoi :: "string \<Rightarrow> stoi_exception + int" where
  "stoi s =
     (let (neg, s2) = strip_sign (dropWhile isspace s);
          ds = takeWhile isdigit s2
      in if ds = [] then Inl invalid_argument
         else let v = (if neg then - int (digits_value 0 ds) else int (digits_value 0 ds))
              in if v < - (2 ^ 31) \<or> 2 ^ 31 - 1 < v then Inl out_of_range else Inr v)"

subsection \<open>\<open>decode_header\<close>\<close>

text \<open>
  The result pairs the returned bool with the message after the call: the function
  writes \<open>body_length_\<close> on several of its paths. The \<open>int\<close> that \<open>stoi\<close> returns is
  converted to \<open>std::size_t\<close> by the assignment, so a negative value becomes a huge one.
\<close>

definition decode_header :: "Rtcm_Message \<Rightarrow> bool \<times> Rtcm_Message" where
  "decode_header m =
     (let header = take header_length (m_data m)
      in if header ! 0 \<noteq> CHR ''G'' \<or> header ! 1 \<noteq> CHR ''S'' then (False, m)
         else let header2 = drop 2 header
              in case stoi header2 of
                   Inl e \<Rightarrow> (False, m\<lparr>m_body_length := 0\<rparr>)
                 | Inr v \<Rightarrow>
                     let m1 = m\<lparr>m_body_length := word_of_int v\<rparr>
                     in if m_body_length m1 = 0 then (False, m1)
                        else if m_body_length m1 > of_nat max_body_length
                             then (False, m1\<lparr>m_body_length := 0\<rparr>)
                             else (True, m1))"

subsection \<open>\<open>encode_header\<close>\<close>

text \<open>
  \<open>operator<<\<close> on an \<open>int\<close> prints its decimal digits; \<open>std::setw(4)\<close> pads on the left
  with the stream's fill character, which is a blank unless \<open>std::setfill\<close> changes it,
  and the source never calls \<open>std::setfill\<close>.
\<close>

definition digit_char :: "nat \<Rightarrow> char" where
  "digit_char d = char_of (48 + d)"

function dec_string :: "nat \<Rightarrow> string" where
  "dec_string n = (if n < 10 then [digit_char n] else dec_string (n div 10) @ [digit_char (n mod 10)])"
  by pat_completeness auto
termination
  by (relation "measure id") auto

declare dec_string.simps [simp del]

definition int_string :: "int \<Rightarrow> string" where
  "int_string v = (if v < 0 then CHR ''-'' # dec_string (nat (- v)) else dec_string (nat v))"

definition setw :: "nat \<Rightarrow> string \<Rightarrow> string" where
  "setw w s = replicate (w - length s) (CHR '' '') @ s"

definition resize :: "nat \<Rightarrow> char \<Rightarrow> string \<Rightarrow> string" where
  "resize n c s = take n s @ replicate (n - length s) c"

text \<open>\<open>std::copy\<close> of a string onto the start of the array.\<close>

definition copy_to :: "string \<Rightarrow> nat \<Rightarrow> string \<Rightarrow> string" where
  "copy_to src pos dst = take pos dst @ src @ drop (pos + length src) dst"

definition encode_header :: "Rtcm_Message \<Rightarrow> Rtcm_Message" where
  "encode_header m =
     (let v = max (min (sint (ucast (m_body_length m) :: 32 word)) (int max_body_length)) 0;
          header = resize header_length (CHR '' '') (''GS'' @ setw 4 (int_string v))
      in m\<lparr>m_data := copy_to header 0 (m_data m)\<rparr>)"

text \<open>A message whose array starts with the six bytes \<open>h\<close>, as after the header read.\<close>

definition with_header :: "string \<Rightarrow> Rtcm_Message" where
  "with_header h = new_Rtcm_Message\<lparr>m_data := copy_to h 0 (m_data new_Rtcm_Message)\<rparr>"

section \<open>The queue bridge: \<open>Tcp_Internal_Client::write\<close> and \<open>Queue_Reader::do_read_queue\<close>\<close>





text \<open>\<open>std::copy_n(char_msg, msg.body_length(), msg.body())\<close>.\<close>

definition copy_n_body :: "string \<Rightarrow> Rtcm_Message \<Rightarrow> Rtcm_Message" where
  "copy_n_body message msg =
     msg\<lparr>m_data := copy_to (take (unat (m_body_length msg)) message) header_length (m_data msg)\<rparr>"




text \<open>
  The message one iteration builds from a popped string before it calls \<open>write\<close>: a
  fresh message with the body length set from the string's length, the body copied, the
  header encoded.
\<close>

definition envelope :: "string \<Rightarrow> Rtcm_Message" where
  "envelope message =
     encode_header (copy_n_body message
       (body_length (of_nat (length message)) new_Rtcm_Message))"

section \<open>The broadcast room: \<open>Rtcm_Listener_Room\<close>\<close>

text \<open>
  The room holds a set of shared pointers to listeners and a deque of recent messages.
  A listener is named by a number (its address); \<open>store\<close> maps each listener to the
  messages its \<open>deliver\<close> has been called with, oldest first. \<open>Rtcm_Session::deliver\<close>
  pushes the message at the back of the session's write queue.
\<close>

definition max_recent_msgs :: nat where
  "max_recent_msgs = 1"

record Rtcm_Listener_Room =
  m_participants :: "nat set"
  m_recent_msgs :: "Rtcm_Message list"

record room_world =
  room :: Rtcm_Listener_Room
  store :: "nat \<Rightarrow> Rtcm_Message list"

definition new_room_world :: room_world where
  "new_room_world =
     \<lparr>room = \<lparr>m_participants = {}, m_recent_msgs = []\<rparr>, store = (\<lambda>p. [])\<rparr>"

definition listener_deliver ::
  "nat \<Rightarrow> (nat \<Rightarrow> Rtcm_Message list) \<Rightarrow> Rtcm_Message \<Rightarrow> (nat \<Rightarrow> Rtcm_Message list)" where
  "listener_deliver p st msg = st(p := st p @ [msg])"

text \<open>\<open>std::deque::pop_front\<close> on an empty deque is undefined behaviour: \<open>None\<close>.\<close>

definition pop_front :: "'a list \<Rightarrow> 'a list option" where
  "pop_front xs = (case xs of [] \<Rightarrow> None | x # r \<Rightarrow> Some r)"

function trim_recent :: "Rtcm_Message list \<Rightarrow> Rtcm_Message list option" where
  "trim_recent xs =
     (if length xs > max_recent_msgs
      then (case pop_front xs of None \<Rightarrow> None | Some r \<Rightarrow> trim_recent r)
      else Some xs)"
  by pat_completeness auto
termination
  by (relation "measure length") (auto simp: pop_front_def split: list.splits)

declare trim_recent.simps [simp del]

definition join :: "nat \<Rightarrow> room_world \<Rightarrow> room_world" where
  "join participant w =
     \<lparr>room = (room w)\<lparr>m_participants := insert participant (m_participants (room w))\<rparr>,
      store = foldl (listener_deliver participant) (store w) (m_recent_msgs (room w))\<rparr>"

definition leave :: "nat \<Rightarrow> room_world \<Rightarrow> room_world" where
  "leave participant w =
     w\<lparr>room := (room w)\<lparr>m_participants := m_participants (room w) - {participant}\<rparr>\<rparr>"

text \<open>
  The loop over \<open>participants_\<close> calls \<open>deliver\<close> once on every member; the members are
  distinct objects, so the order of the calls does not show in the store.
\<close>

definition deliver :: "Rtcm_Message \<Rightarrow> room_world \<Rightarrow> room_world option" where
  "deliver msg w =
     (case trim_recent (m_recent_msgs (room w) @ [msg]) of
        None \<Rightarrow> None
      | Some recent \<Rightarrow>
          Some \<lparr>room = (room w)\<lparr>m_recent_msgs := recent\<rparr>,
                store = (\<lambda>p. if p \<in> m_participants (room w) then store w p @ [msg]
                              else store w p)\<rparr>)"

datatype room_op = Join nat | Leave nat | Deliver Rtcm_Message

fun run_room :: "room_op list \<Rightarrow> room_world \<Rightarrow> room_world option" where
  "run_room [] w = Some w"
| "run_room (Join p # ops) w = run_room ops (join p w)"
| "run_room (Leave p # ops) w = run_room ops (leave p w)"
| "run_room (Deliver msg # ops) w =
     (case deliver msg w of None \<Rightarrow> None | Some w' \<Rightarrow> run_room ops w')"

text \<open>The message of the last \<open>Deliver\<close> in a sequence of operations, if there is one.\<close>

fun last_delivered :: "room_op list \<Rightarrow> Rtcm_Message option \<Rightarrow> Rtcm_Message option" where
  "last_delivered [] r = r"
| "last_delivered (Deliver msg # ops) r = last_delivered ops (Some msg)"
| "last_delivered (_ # ops) r = last_delivered ops r"

definition ring_of :: "Rtcm_Message option \<Rightarrow> Rtcm_Message list" where
  "ring_of r = (case r of None \<Rightarrow> [] | Some msg \<Rightarrow> [msg])"

section \<open>The RTCM layer: bit fields, CRC-24Q and framing\<close>

text \<open>
  The bodies of \<open>Rtcm::check_CRC\<close>, \<open>Rtcm::build_message\<close>, \<open>Rtcm::add_CRC\<close> and of
  the conversions between binary symbols and binary data are in \<open>rtcm.cc\<close>; \<open>rtcm.h\<close>
  declares them and draws the frame. A string of binary symbols is a list of bits, most
  significant first; binary data is a list of bytes.
\<close>

subsection \<open>Bit fields\<close>

text \<open>The \<open>w\<close> low binary digits of \<open>v\<close>, most significant first.\<close>

fun bin_digits :: "nat \<Rightarrow> nat \<Rightarrow> bool list" where
  "bin_digits 0 v = []"
| "bin_digits (Suc w) v = bin_digits w (v div 2) @ [odd v]"

text \<open>
  Modelled from the spec: \<open>to_bits(unsigned_value, width)\<close> of the BitField Codec, whose
  code is in \<open>rtcm.cc\<close>. It gives the \<open>width\<close>-bit binary representation and saturates
  at the largest representable value. Every width used below is a positive constant.
\<close>

definition to_bits :: "nat \<Rightarrow> nat \<Rightarrow> bool list" where
  "to_bits v w = bin_digits w (min v (2 ^ w - 1))"

text \<open>
  Modelled from the spec: \<open>bits_to_uint\<close> (\<open>Rtcm::bin_to_uint\<close>, body in \<open>rtcm.cc\<close>), the
  inverse of \<open>to_bits\<close>.
\<close>

definition bits_to_uint :: "bool list \<Rightarrow> nat" where
  "bits_to_uint bs = foldl (\<lambda>a b. 2 * a + (if b then 1 else 0)) 0 bs"

text \<open>
  Modelled from the spec: \<open>Rtcm::bin_to_binary_data\<close> (body in \<open>rtcm.cc\<close>), which packs
  8 bits per byte, most significant bit first.
\<close>

definition bin_to_binary_data :: "bool list \<Rightarrow> 8 word list" where
  "bin_to_binary_data s =
     map (\<lambda>i. of_nat (bits_to_uint (take 8 (drop (8 * i) s)))) [0..<length s div 8]"

text \<open>
  Modelled from the spec: \<open>Rtcm::binary_data_to_bin\<close> (body in \<open>rtcm.cc\<close>), which
  unpacks each byte into 8 bits, most significant bit first.
\<close>

definition binary_data_to_bin :: "8 word list \<Rightarrow> bool list" where
  "binary_data_to_bin s = concat (map (\<lambda>b. to_bits (unat b) 8) s)"

subsection \<open>CRC-24Q\<close>

text \<open>
  The CRC-24Q Engine is in the source a CRC object set up and run in \<open>rtcm.cc\<close>. The
  spec fixes it: polynomial 0x1864CFB, initial value 0, no final XOR, bits most
  significant first, a message processed byte by byte through a table of 256 entries.
\<close>

text \<open>
  Modelled from the spec: the polynomial of the CRC engine in \<open>rtcm.cc\<close>, 0x1864CFB. Its
  term \<open>x^24\<close> lies outside the 24-bit register, so the numeral denotes 0x864CFB there.
\<close>

definition crc24q_poly :: "24 word" where
  "crc24q_poly = 0x1864CFB"

text \<open>
  Modelled from the spec: one step of the division by the polynomial in the CRC engine of
  \<open>rtcm.cc\<close>, most significant bit first: shift left, and subtract the polynomial when a
  one is shifted out.
\<close>

definition crc24q_shift :: "24 word \<Rightarrow> 24 word" where
  "crc24q_shift c = (if bit c 23 then push_bit 1 c XOR crc24q_poly else push_bit 1 c)"

text \<open>
  Modelled from the spec: an entry of the 256-entry lookup table of the CRC engine in
  \<open>rtcm.cc\<close>, the remainder of the byte \<open>i\<close> placed at the top of the register.
\<close>

definition crc24q_table_entry :: "8 word \<Rightarrow> 24 word" where
  "crc24q_table_entry i = (crc24q_shift ^^ 8) (push_bit 16 (ucast i))"

text \<open>Modelled from the spec: the 256-entry lookup table of the CRC engine in \<open>rtcm.cc\<close>.\<close>

definition crc24q_table :: "24 word list" where
  "crc24q_table = map (\<lambda>i. crc24q_table_entry (of_nat i)) [0..<256]"

text \<open>
  Modelled from the spec: the byte step of the CRC engine in \<open>rtcm.cc\<close>: the table is
  looked up at the top byte of the register XOR the message byte, and the rest of the
  register moves up by 8 bits.
\<close>

definition crc24q_update :: "24 word \<Rightarrow> 8 word \<Rightarrow> 24 word" where
  "crc24q_update c b = crc24q_table ! unat (ucast (drop_bit 16 c) XOR b) XOR push_bit 8 c"

text \<open>
  Modelled from the spec: \<open>compute_crc24q(bytes)\<close> (the run of the CRC engine in
  \<open>rtcm.cc\<close>), from the initial value 0 and with no final XOR.
\<close>

definition compute_crc24q :: "8 word list \<Rightarrow> 24 word" where
  "compute_crc24q s = foldl crc24q_update 0 s"

text \<open>
  Modelled from the spec: the CRC-24Q of the spec's contract said bit by bit, for
  comparison with the table-driven engine: the register is shifted left once per message
  bit, and the polynomial is subtracted when the bit shifted out differs from the message
  bit.
\<close>

definition crc24q_bit :: "24 word \<Rightarrow> bool \<Rightarrow> 24 word" where
  "crc24q_bit c b = (if bit c 23 \<noteq> b then push_bit 1 c XOR crc24q_poly else push_bit 1 c)"

text \<open>
  Modelled from the spec: the CRC-24Q of a string of bits, bit by bit from the initial
  value 0 and with no final XOR.
\<close>

definition crc24q_bitwise :: "bool list \<Rightarrow> 24 word" where
  "crc24q_bitwise s = foldl crc24q_bit 0 s"

text \<open>
  Modelled from the spec: the 24 bits of a CRC as the 3 bytes that end a frame (written
  by \<open>Rtcm::add_CRC\<close> and read by \<open>Rtcm::check_CRC\<close>, bodies in \<open>rtcm.cc\<close>).
\<close>

definition crc_bytes :: "24 word \<Rightarrow> 8 word list" where
  "crc_bytes c = bin_to_binary_data (to_bits (unat c) 24)"

text \<open>
  Modelled from the spec: \<open>verify\<close> (\<open>Rtcm::check_CRC\<close>, body in \<open>rtcm.cc\<close>) recomputes
  the CRC over all bytes except the last 3 and compares it with those. A message of
  fewer than 3 bytes has no 3 last bytes to compare equal.
\<close>

definition check_CRC :: "8 word list \<Rightarrow> bool" where
  "check_CRC message =
     (let n = length message - 3
      in drop n message = crc_bytes (compute_crc24q (take n message)))"

text \<open>Bit \<open>j\<close> of byte \<open>k\<close> of a message inverted.\<close>

definition flip_message_bit :: "8 word list \<Rightarrow> nat \<Rightarrow> nat \<Rightarrow> 8 word list" where
  "flip_message_bit message k j = message[k := message ! k XOR push_bit j 1]"

subsection \<open>Framing\<close>

text \<open>
  \<open>rtcm.h\<close> declares \<open>build_message\<close> ("adds 0s to complete a byte and adds the CRC"),
  \<open>add_CRC\<close> and the members \<open>preamble\<close> and \<open>reserved_field\<close>, and its comment draws
  the frame: preamble (8 bits), 000000 (6 bits), length (10 bits), data message (length
  times 8 bits), parity (24 bits).
\<close>

text \<open>
  Modelled from the spec: the value of \<open>Rtcm::preamble\<close>, set in the constructor in
  \<open>rtcm.cc\<close>: 8 bits, fixed 0xD3.
\<close>

definition preamble :: "bool list" where
  "preamble = to_bits 0xD3 8"

text \<open>
  Modelled from the spec: the value of \<open>Rtcm::reserved_field\<close>, set in the constructor in
  \<open>rtcm.cc\<close>: 6 bits, zero.
\<close>

definition reserved_field :: "bool list" where
  "reserved_field = to_bits 0 6"

text \<open>
  Modelled from the spec: the padding in \<open>Rtcm::build_message\<close> (body in \<open>rtcm.cc\<close>): the
  body's bits are padded to a byte boundary with zero bits.
\<close>

definition pad_to_byte :: "bool list \<Rightarrow> bool list" where
  "pad_to_byte s = s @ replicate ((8 - length s mod 8) mod 8) False"

text \<open>
  Modelled from the spec: \<open>Rtcm::add_CRC\<close> (body in \<open>rtcm.cc\<close>) appends the CRC-24Q of
  everything preceding it.
\<close>

definition add_CRC :: "bool list \<Rightarrow> bool list" where
  "add_CRC m = m @ to_bits (unat (compute_crc24q (bin_to_binary_data m))) 24"

text \<open>
  Modelled from the spec: \<open>Rtcm::build_message\<close> (body in \<open>rtcm.cc\<close>) pads the body,
  prepends the preamble, the reserved bits and the 10-bit count of the body's bytes,
  appends the CRC and returns the packed bytes.
\<close>

definition build_message :: "bool list \<Rightarrow> 8 word list" where
  "build_message data =
     (let s = pad_to_byte data;
          message_length = to_bits (length s div 8) 10
      in bin_to_binary_data (add_CRC (preamble @ reserved_field @ message_length @ s)))"

text \<open>The length field as a reader finds it: bits 14 to 23 of the frame.\<close>

definition read_message_length :: "8 word list \<Rightarrow> nat" where
  "read_message_length message = bits_to_uint (take 10 (drop 14 (binary_data_to_bin message)))"

section \<open>The lock-time table\<close>

text \<open>
  \<open>rtcm.h\<close> declares the tables (\<open>gps_L1_last_lock_time[64]\<close> and five more, arrays of
  timestamps) and \<open>lock_time\<close>, which "returns the time period in which GPS L1 signals
  have been continually tracked" as a \<open>uint32_t\<close>; the body is in \<open>rtcm.cc\<close>. A
  timestamp is a number of seconds.
\<close>

text \<open>The size of each table, from the declarations in \<open>rtcm.h\<close>.\<close>

definition lock_time_table_size :: nat where
  "lock_time_table_size = 64"

datatype lock_time_error = slot_out_of_range

text \<open>
  Modelled from the spec: \<open>Rtcm::lock_time\<close>, body in \<open>rtcm.cc\<close>. Each call compares
  the current observation timestamp against the stored last-change time for the slot,
  updates the slot, and returns the elapsed duration; a slot outside the table's domain
  is a caller contract violation. The result pairs the duration with the table after
  the call.
\<close>

definition lock_time ::
  "int list \<Rightarrow> nat \<Rightarrow> int \<Rightarrow> lock_time_error + (32 word \<times> int list)" where
  "lock_time last_lock_time slot current_time =
     (if slot < lock_time_table_size \<and> slot < length last_lock_time
      then Inr (word_of_int (current_time - last_lock_time ! slot),
                last_lock_time[slot := current_time])
      else Inl slot_out_of_range)"

section \<open>Message type 1005: stationary antenna reference point\<close>

text \<open>
  \<open>rtcm.h\<close> declares \<open>print_MT1005\<close> and \<open>read_MT1005\<close> and the data fields with their
  widths (\<open>DF002\<close> and \<open>DF003\<close> 12 bits, \<open>DF021\<close> 6, \<open>DF022\<close> to \<open>DF024\<close>, \<open>DF141\<close> and
  \<open>DF142\<close> 1, \<open>DF025\<close> to \<open>DF027\<close> 38, \<open>DF364\<close> 2); the bodies are in \<open>rtcm.cc\<close>. A
  \<open>double\<close> is a real number here: the scaling and the rounding are exact.
\<close>

subsection \<open>Signed and scaled fields\<close>

text \<open>
  Modelled from the spec: \<open>to_bits_signed(signed_value, width)\<close> of the BitField Codec
  (code in \<open>rtcm.cc\<close>), the two's-complement form of the given width.
\<close>

definition to_bits_signed :: "int \<Rightarrow> nat \<Rightarrow> bool list" where
  "to_bits_signed v w = bin_digits w (nat (v mod 2 ^ w))"

text \<open>
  Modelled from the spec: \<open>bits_to_int\<close> in its two's-complement variant (code in
  \<open>rtcm.cc\<close>), the inverse of \<open>to_bits_signed\<close>.
\<close>

definition bits_to_int :: "bool list \<Rightarrow> int" where
  "bits_to_int bs =
     (if bs \<noteq> [] \<and> hd bs then int (bits_to_uint bs) - 2 ^ length bs
      else int (bits_to_uint bs))"

text \<open>
  Modelled from the spec: the rounding of the scaled fields (code in \<open>rtcm.cc\<close>), to the
  nearest integer, ties away from zero.
\<close>

definition round_half_away :: "real \<Rightarrow> int" where
  "round_half_away x = (if 0 \<le> x then \<lfloor>x + 1 / 2\<rfloor> else - \<lfloor>- x + 1 / 2\<rfloor>)"

text \<open>
  Modelled from the spec: \<open>to_bits_scaled(double_value, width, resolution)\<close> (code in
  \<open>rtcm.cc\<close>) rounds \<open>value / resolution\<close>, then encodes; the fields used here are
  signed.
\<close>

definition to_bits_scaled :: "real \<Rightarrow> nat \<Rightarrow> real \<Rightarrow> bool list" where
  "to_bits_scaled v w resolution = to_bits_signed (round_half_away (v / resolution)) w"

text \<open>
  Modelled from the spec: \<open>bits_to_double(bit_string, resolution)\<close> (\<open>Rtcm::bin_to_double\<close>
  and the scaling at its call, code in \<open>rtcm.cc\<close>), the inverse of \<open>to_bits_scaled\<close>.
\<close>

definition bits_to_double :: "bool list \<Rightarrow> real \<Rightarrow> real" where
  "bits_to_double bs resolution = real_of_int (bits_to_int bs) * resolution"

subsection \<open>Encoding and decoding\<close>

text \<open>
  Modelled from the spec: \<open>Rtcm::print_MT1005\<close>, body in \<open>rtcm.cc\<close>. The assembler
  composes the fields in the order of the standard's table for the message type, here
  message number, station id, ITRF year (6 bits, zero), the GPS, GLONASS and Galileo
  indicators, the reference-station indicator, ECEF X, the oscillator indicator, one
  reserved bit, ECEF Y, the quarter-cycle indicator, ECEF Z: 152 bits, the size of
  \<open>get_MT1005_test\<close> in \<open>rtcm.h\<close>. The ECEF coordinates are 38-bit signed fields of
  resolution 0.0001 m. The body is then framed.
\<close>

definition print_MT1005 ::
  "nat \<Rightarrow> real \<Rightarrow> real \<Rightarrow> real \<Rightarrow> bool \<Rightarrow> bool \<Rightarrow> bool \<Rightarrow> bool \<Rightarrow> bool \<Rightarrow> nat
     \<Rightarrow> 8 word list" where
  "print_MT1005 ref_id ecef_x ecef_y ecef_z gps glonass galileo non_physical
       single_oscillator quarter_cycle_indicator =
     build_message
       (to_bits 1005 12 @ to_bits ref_id 12 @ to_bits 0 6
        @ [gps] @ [glonass] @ [galileo] @ [non_physical]
        @ to_bits_scaled ecef_x 38 (1 / 10000)
        @ [single_oscillator] @ [False]
        @ to_bits_scaled ecef_y 38 (1 / 10000)
        @ to_bits quarter_cycle_indicator 2
        @ to_bits_scaled ecef_z 38 (1 / 10000))"

text \<open>The output parameters of \<open>read_MT1005\<close>.\<close>

record MT1005_outputs =
  ref_id :: nat
  ecef_x :: real
  ecef_y :: real
  ecef_z :: real
  gps :: bool
  glonass :: bool
  galileo :: bool

text \<open>
  Modelled from the spec: \<open>Rtcm::read_MT1005\<close>, body in \<open>rtcm.cc\<close>. The reader verifies
  the CRC, identifies the message type from the first 12 bits of the body, and decodes
  the fields into the output parameters; it returns 0 on success and 1 on failure, and
  on a CRC failure or another type it leaves the outputs as they are. The result pairs
  the status with the outputs after the call.
\<close>

definition read_MT1005 :: "8 word list \<Rightarrow> MT1005_outputs \<Rightarrow> int \<times> MT1005_outputs" where
  "read_MT1005 message out =
     (if \<not> check_CRC message then (1, out)
      else let message_bin = binary_data_to_bin message;
               data = drop 24 message_bin
           in if bits_to_uint (take 12 data) \<noteq> 1005 then (1, out)
              else (0, \<lparr>ref_id = bits_to_uint (take 12 (drop 12 data)),
                        ecef_x = bits_to_double (take 38 (drop 34 data)) (1 / 10000),
                        ecef_y = bits_to_double (take 38 (drop 74 data)) (1 / 10000),
                        ecef_z = bits_to_double (take 38 (drop 114 data)) (1 / 10000),
                        gps = (bits_to_uint (take 1 (drop 30 data)) = 1),
                        glonass = (bits_to_uint (take 1 (drop 31 data)) = 1),
                        galileo = (bits_to_uint (take 1 (drop 32 data)) = 1)\<rparr>))"

section \<open>Properties of the transport envelope\<close>

subsection \<open>Parsing and printing decimal numbers\<close>

lemma isdigit_not_space_sign:
  "isdigit c \<Longrightarrow> \<not> isspace c \<and> c \<noteq> CHR ''-'' \<and> c \<noteq> CHR ''+''"
  by (auto simp: isdigit_def isspace_def)

lemma digits_value_bound:
  "\<forall>c\<in>set ds. isdigit c \<Longrightarrow> digits_value acc ds < (acc + 1) * 10 ^ length ds"
proof (induction ds arbitrary: acc)
  case Nil
  then show ?case by simp
next
  case (Cons c cs)
  from Cons.prems have "isdigit c" by simp
  then have d: "digit_value c \<le> 9"
    by (auto simp: isdigit_def digit_value_def)
  have "digits_value (10 * acc + digit_value c) cs < (10 * acc + digit_value c + 1) * 10 ^ length cs"
    using Cons by simp
  also have "\<dots> \<le> (10 * acc + 10) * 10 ^ length cs"
    using d by (intro mult_right_mono) auto
  finally show ?case by (simp add: algebra_simps)
qed

lemma dropWhile_blanks:
  assumes "\<forall>c\<in>set pad. isspace c" and "rest = [] \<or> \<not> isspace (hd rest)"
  shows "dropWhile isspace (pad @ rest) = rest"
proof -
  have "dropWhile isspace (pad @ rest) = dropWhile isspace rest"
    using assms(1) by (simp add: dropWhile_append2)
  also have "\<dots> = rest"
    using assms(2) by (cases rest) auto
  finally show ?thesis .
qed

lemma stoi_digits:
  assumes "\<forall>c\<in>set pad. isspace c" and "ds \<noteq> []" and "\<forall>c\<in>set ds. isdigit c"
    and "length ds \<le> 9"
  shows "stoi (pad @ ds) = Inr (int (digits_value 0 ds))"
proof -
  obtain d ds' where ds: "ds = d # ds'" using assms(2) by (cases ds) auto
  have hd: "isdigit d" using assms(3) ds by simp
  have drop: "dropWhile isspace (pad @ ds) = ds"
    using assms(1) hd ds isdigit_not_space_sign by (intro dropWhile_blanks) auto
  have sign: "strip_sign ds = (False, ds)"
    using hd isdigit_not_space_sign ds by (auto simp: strip_sign_def)
  have tw: "takeWhile isdigit ds = ds"
    using assms(3) by (simp add: takeWhile_eq_all_conv)
  have "digits_value 0 ds < 10 ^ length ds"
    using digits_value_bound [OF assms(3), of 0] by simp
  also have "\<dots> \<le> (10 :: nat) ^ 9"
    using assms(4) by (intro power_increasing) auto
  finally have "int (digits_value 0 ds) < 2 ^ 31" by simp
  then show ?thesis
    using assms(2) by (simp add: stoi_def drop sign tw)
qed

lemma stoi_no_digit:
  assumes "\<forall>c\<in>set pad. isspace c"
    and "rest = [] \<or> (\<not> isspace (hd rest) \<and> \<not> isdigit (hd rest) \<and> hd rest \<noteq> CHR ''-'' \<and> hd rest \<noteq> CHR ''+'')"
  shows "stoi (pad @ rest) = Inl invalid_argument"
proof -
  have drop: "dropWhile isspace (pad @ rest) = rest"
    using assms by (intro dropWhile_blanks) auto
  have sign: "strip_sign rest = (False, rest)"
    using assms(2) by (cases rest) (auto simp: strip_sign_def)
  have tw: "takeWhile isdigit rest = []"
    using assms(2) by (cases rest) auto
  show ?thesis by (simp add: stoi_def drop sign tw)
qed

lemma decode_header_GS:
  assumes "take header_length (m_data m) = CHR ''G'' # CHR ''S'' # f"
  shows "decode_header m =
     (case stoi f of
        Inl e \<Rightarrow> (False, m\<lparr>m_body_length := 0\<rparr>)
      | Inr v \<Rightarrow>
          if (word_of_int v :: 64 word) = 0 then (False, m\<lparr>m_body_length := word_of_int v\<rparr>)
          else if (word_of_int v :: 64 word) > 1029 then (False, m\<lparr>m_body_length := 0\<rparr>)
          else (True, m\<lparr>m_body_length := word_of_int v\<rparr>))"
  using assms by (simp add: decode_header_def max_body_length_def split: sum.splits)

lemma size_t_of_small:
  assumes "v < 10 ^ 9"
  shows "((word_of_int (int v) :: 64 word) = 0 \<longleftrightarrow> v = 0)"
    and "((word_of_int (int v) :: 64 word) > 1029 \<longleftrightarrow> v > 1029)"
    and "unat (word_of_int (int v) :: 64 word) = v"
proof -
  have v: "v < 2 ^ 64" using assms by simp
  then show u: "unat (word_of_int (int v) :: 64 word) = v"
    by (simp add: unat_of_nat)
  show "((word_of_int (int v) :: 64 word) = 0 \<longleftrightarrow> v = 0)"
    using u by (metis unat_eq_zero)
  show "((word_of_int (int v) :: 64 word) > 1029 \<longleftrightarrow> v > 1029)"
    using u by (simp add: word_less_nat_alt)
qed

lemma cast_small:
  assumes "(n :: 64 word) \<le> 1029"
  shows "sint (ucast n :: 32 word) = int (unat n)"
proof -
  have b: "uint n \<le> 1029" using assms by (simp add: word_le_def)
  have c: "- 2147483648 \<le> uint n" using uint_ge_0 [of n] by linarith
  have "sint (ucast n :: 32 word) = signed_take_bit 31 (uint n)"
    by (simp only: ucast_eq sint_sbintrunc') simp
  also have "\<dots> = uint n"
    using b c by (intro signed_take_bit_int_eq_self) simp_all
  finally show ?thesis by simp
qed

lemma digit_char_props:
  assumes "d < 10"
  shows "isdigit (digit_char d)" and "digit_value (digit_char d) = d"
  using assms by (simp_all add: isdigit_def digit_value_def digit_char_def)

lemma digits_value_snoc:
  "digits_value acc (xs @ [c]) = 10 * digits_value acc xs + digit_value c"
  by (induction xs arbitrary: acc) simp_all

lemma dec_string_digits: "\<forall>c\<in>set (dec_string n). isdigit c"
proof (induction n rule: dec_string.induct)
  case (1 n)
  show ?case
  proof (cases "n < 10")
    case True
    then show ?thesis by (subst dec_string.simps) (simp add: digit_char_props)
  next
    case False
    then show ?thesis
      using 1 by (subst dec_string.simps) (simp add: digit_char_props)
  qed
qed

lemma dec_string_value: "digits_value 0 (dec_string n) = n"
proof (induction n rule: dec_string.induct)
  case (1 n)
  show ?case
  proof (cases "n < 10")
    case True
    then show ?thesis by (subst dec_string.simps) (simp add: digit_char_props)
  next
    case False
    then show ?thesis
      using 1 by (subst dec_string.simps) (simp add: digits_value_snoc digit_char_props)
  qed
qed

lemma dec_string_length: "0 < k \<Longrightarrow> n < 10 ^ k \<Longrightarrow> length (dec_string n) \<le> k"
proof (induction n arbitrary: k rule: dec_string.induct)
  case (1 n)
  show ?case
  proof (cases "n < 10")
    case True
    then show ?thesis using 1(2) by (subst dec_string.simps) simp
  next
    case False
    obtain j where k: "k = Suc j" using 1(2) by (cases k) auto
    have j: "0 < j" using False 1(3) k by (cases j) auto
    have "n div 10 < 10 ^ j" using 1(3) k by (simp add: less_mult_imp_div_less mult.commute)
    then have "length (dec_string (n div 10)) \<le> j" using 1(1) False j by simp
    then show ?thesis using False k by (subst dec_string.simps) simp
  qed
qed

lemma dec_string_nonempty: "dec_string n \<noteq> []"
  by (subst dec_string.simps) simp

subsection \<open>\<open>decode_header\<close>\<close>

lemma decode_header_not_GS:
  assumes "take header_length (m_data m) = h" and "h ! 0 \<noteq> CHR ''G'' \<or> h ! 1 \<noteq> CHR ''S''"
  shows "decode_header m = (False, m)"
  using assms by (auto simp: decode_header_def)

lemma decode_header_digits:
  assumes h: "take header_length (m_data m) = ''GS'' @ pad @ ds"
    and l9: "length ds \<le> 9"
    and pad: "\<forall>c\<in>set pad. isspace c"
    and ds: "ds \<noteq> []" "\<forall>c\<in>set ds. isdigit c"
  shows "decode_header m =
           (if 1 \<le> digits_value 0 ds \<and> digits_value 0 ds \<le> 1029
            then (True, m\<lparr>m_body_length := of_nat (digits_value 0 ds)\<rparr>)
            else (False, m\<lparr>m_body_length := 0\<rparr>))"
proof -
  have st: "stoi (pad @ ds) = Inr (int (digits_value 0 ds))"
    by (rule stoi_digits [OF pad ds l9])
  have "digits_value 0 ds < 10 ^ length ds"
    using digits_value_bound [OF ds(2), of 0] by simp
  also have "\<dots> \<le> (10 :: nat) ^ 9"
    using l9 by (intro power_increasing) auto
  finally have small: "digits_value 0 ds < 10 ^ 9" .
  have h': "take header_length (m_data m) = CHR ''G'' # CHR ''S'' # (pad @ ds)"
    using h by simp
  show ?thesis
    unfolding decode_header_GS [OF h'] st
    using size_t_of_small [OF small] by auto
qed

lemma decode_header_no_digit:
  assumes h: "take header_length (m_data m) = ''GS'' @ pad @ rest"
    and pad: "\<forall>c\<in>set pad. isspace c"
    and rest: "rest = [] \<or> (\<not> isspace (hd rest) \<and> \<not> isdigit (hd rest)
                 \<and> hd rest \<noteq> CHR ''-'' \<and> hd rest \<noteq> CHR ''+'')"
  shows "decode_header m = (False, m\<lparr>m_body_length := 0\<rparr>)"
proof -
  have h': "take header_length (m_data m) = CHR ''G'' # CHR ''S'' # (pad @ rest)"
    using h by simp
  show ?thesis
    unfolding decode_header_GS [OF h'] stoi_no_digit [OF pad rest] by simp
qed

text \<open>
  Claim C5, as the code has it. \<open>decode_header\<close> returns false when the first two bytes
  are not \<open>G\<close>, \<open>S\<close>. When they are and the length field is a run of decimal digits,
  with blanks allowed before it, the header is accepted exactly when the value lies in
  1 to 1029, and the value is then the stored body length; a zero length is refused. A
  length field in which no digit follows the leading blanks is refused. What follows the
  digits is not looked at by \<open>std::stoi\<close> and is left out of the statement.
\<close>

theorem decode_header_envelope:
  assumes "take header_length (m_data m) = h"
  shows "((h ! 0 \<noteq> CHR ''G'' \<or> h ! 1 \<noteq> CHR ''S'') \<longrightarrow> \<not> fst (decode_header m))
      \<and> (h = ''GS'' @ pad @ ds \<and> (\<forall>c\<in>set pad. isspace c) \<and> ds \<noteq> [] \<and> (\<forall>c\<in>set ds. isdigit c)
           \<longrightarrow> (fst (decode_header m) \<longleftrightarrow> 1 \<le> digits_value 0 ds \<and> digits_value 0 ds \<le> 1029)
             \<and> (fst (decode_header m)
                  \<longrightarrow> unat (m_body_length (snd (decode_header m))) = digits_value 0 ds))
      \<and> (h = ''GS'' @ pad' @ rest \<and> (\<forall>c\<in>set pad'. isspace c)
           \<and> (rest = [] \<or> (\<not> isspace (hd rest) \<and> \<not> isdigit (hd rest)
                 \<and> hd rest \<noteq> CHR ''-'' \<and> hd rest \<noteq> CHR ''+''))
           \<longrightarrow> \<not> fst (decode_header m))"
proof (intro conjI impI)
  assume "h ! 0 \<noteq> CHR ''G'' \<or> h ! 1 \<noteq> CHR ''S''"
  then show "\<not> fst (decode_header m)"
    using decode_header_not_GS [OF assms] by simp
next
  assume a: "h = ''GS'' @ pad @ ds \<and> (\<forall>c\<in>set pad. isspace c) \<and> ds \<noteq> [] \<and> (\<forall>c\<in>set ds. isdigit c)"
  have "length h \<le> 6" using assms by (auto simp: header_length_def)
  then have l9: "length ds \<le> 9" using a by simp
  have h: "take header_length (m_data m) = ''GS'' @ pad @ ds" using a assms by simp
  have "digits_value 0 ds < 10 ^ length ds"
    using digits_value_bound [of ds 0] a by simp
  also have "\<dots> \<le> (10 :: nat) ^ 9"
    using l9 by (intro power_increasing) auto
  finally have small: "digits_value 0 ds < 10 ^ 9" .
  have u: "unat (word_of_nat (digits_value 0 ds) :: 64 word) = digits_value 0 ds"
    using size_t_of_small(3) [OF small] by simp
  have d: "decode_header m =
           (if 1 \<le> digits_value 0 ds \<and> digits_value 0 ds \<le> 1029
            then (True, m\<lparr>m_body_length := of_nat (digits_value 0 ds)\<rparr>)
            else (False, m\<lparr>m_body_length := 0\<rparr>))"
    using decode_header_digits [OF h l9] a by blast
  show "fst (decode_header m) \<longleftrightarrow> 1 \<le> digits_value 0 ds \<and> digits_value 0 ds \<le> 1029"
    unfolding d by simp
  show "unat (m_body_length (snd (decode_header m))) = digits_value 0 ds" if "fst (decode_header m)"
    using that u unfolding d by (simp split: if_splits)
next
  assume a: "h = ''GS'' @ pad' @ rest \<and> (\<forall>c\<in>set pad'. isspace c)
           \<and> (rest = [] \<or> (\<not> isspace (hd rest) \<and> \<not> isdigit (hd rest)
                 \<and> hd rest \<noteq> CHR ''-'' \<and> hd rest \<noteq> CHR ''+''))"
  then show "\<not> fst (decode_header m)"
    using decode_header_no_digit [of m pad' rest] assms by simp
qed

lemma with_header_take:
  "length h = 6 \<Longrightarrow> take header_length (m_data (with_header h)) = h"
  by (simp add: with_header_def copy_to_def header_length_def)

text \<open>
  The statement at \<open>GS0042\<close> (accepted, length 42), \<open>GS9999\<close>, \<open>XX0010\<close> and
  \<open>GSabcd\<close> (all refused).
\<close>

theorem decode_header_envelope_witness:
  "fst (decode_header (with_header ''GS0042''))
   \<and> unat (m_body_length (snd (decode_header (with_header ''GS0042'')))) = 42
   \<and> \<not> fst (decode_header (with_header ''GS9999''))
   \<and> \<not> fst (decode_header (with_header ''XX0010''))
   \<and> \<not> fst (decode_header (with_header ''GSabcd''))"
proof -
  have t: "take header_length (m_data (with_header h)) = h" if "length h = 6" for h
    using that by (rule with_header_take)
  have dig: "isdigit (CHR ''0'')" "isdigit (CHR ''4'')" "isdigit (CHR ''2'')" "isdigit (CHR ''9'')"
    by (simp_all add: isdigit_def)
  have a: "fst (decode_header (with_header ''GS0042''))
           \<and> unat (m_body_length (snd (decode_header (with_header ''GS0042'')))) = 42"
    using decode_header_envelope [of "with_header ''GS0042''" "''GS0042''" "[]" "''0042''" "[]" "[]"]
      dig t [of "''GS0042''"]
    by (simp add: digit_value_def)
  have b: "\<not> fst (decode_header (with_header ''GS9999''))"
    using decode_header_envelope [of "with_header ''GS9999''" "''GS9999''" "[]" "''9999''" "[]" "[]"]
      dig t [of "''GS9999''"]
    by (simp add: digit_value_def)
  have c: "\<not> fst (decode_header (with_header ''XX0010''))"
    using decode_header_envelope [of "with_header ''XX0010''" "''XX0010''" "[]" "[]" "[]" "[]"]
      t [of "''XX0010''"]
    by simp
  have d: "\<not> fst (decode_header (with_header ''GSabcd''))"
    using decode_header_envelope [of "with_header ''GSabcd''" "''GSabcd''" "[]" "[]" "[]" "''abcd''"]
      t [of "''GSabcd''"]
    by (simp add: isdigit_def isspace_def)
  show ?thesis using a b c d by blast
qed

text \<open>
  Claim C5 as the specification words it fails twice: \<open>GS0000\<close> carries a decimal
  length in 0 to 1029 and is refused, and \<open>GS12ab\<close> has non-digits in its length field
  and is accepted with length 12.
\<close>

theorem decode_header_counterexample:
  "\<not> fst (decode_header (with_header ''GS0000''))
   \<and> fst (decode_header (with_header ''GS12ab''))
   \<and> m_body_length (snd (decode_header (with_header ''GS12ab''))) = 12"
  by (simp add: decode_header_def with_header_def new_Rtcm_Message_def copy_to_def
      header_length_def max_body_length_def stoi_def strip_sign_def isspace_def isdigit_def
      digit_value_def)

subsection \<open>\<open>encode_header\<close> and \<open>body_length\<close>\<close>

lemma body_length_small:
  assumes "n \<le> 1029"
  shows "body_length n m = m\<lparr>m_body_length := n\<rparr>"
  using assms by (simp add: body_length_def max_body_length_def Let_def not_less [symmetric])

lemma body_length_min: "m_body_length (body_length n m) = min n 1029"
  by (auto simp: body_length_def max_body_length_def Let_def min_def)

lemma encode_header_data:
  assumes "m_body_length m \<le> 1029"
  shows "m_data (encode_header m) =
           ''GS'' @ replicate (4 - length (dec_string (unat (m_body_length m)))) (CHR '' '')
             @ dec_string (unat (m_body_length m)) @ drop 6 (m_data m)"
proof -
  let ?k = "unat (m_body_length m)"
  have k: "?k \<le> 1029" using assms by (simp add: word_le_nat_alt)
  have ku: "uint (m_body_length m) \<le> 1029" using assms by (simp add: word_le_def)
  have v: "max (min (sint (ucast (m_body_length m) :: 32 word)) (int max_body_length)) 0 = int ?k"
    using ku by (simp add: cast_small [OF assms] max_body_length_def)
  have len: "length (dec_string ?k) \<le> 4"
    using k by (intro dec_string_length) auto
  have s: "int_string (int ?k) = dec_string ?k"
    by (simp add: int_string_def)
  have r: "resize header_length (CHR '' '') (''GS'' @ setw 4 (dec_string ?k))
             = ''GS'' @ setw 4 (dec_string ?k)"
    using len by (simp add: resize_def header_length_def setw_def)
  show ?thesis
    unfolding encode_header_def Let_def v s r
    using len by (simp add: copy_to_def setw_def)
qed

text \<open>
  Claim C6, as the code has it. For a body length \<open>n\<close> of at most 1029, the six header
  bytes are \<open>GS\<close> followed by the decimal digits of \<open>n\<close> right-aligned in four columns
  and padded on the left with blanks, not zeros. The digit string is not empty, consists
  of digits and reads back as \<open>n\<close>; for \<open>n > 0\<close> \<open>decode_header\<close> accepts the header
  and leaves the message as it is.
\<close>

theorem encode_header_format:
  assumes "n \<le> 1029"
  shows "take header_length (m_data (encode_header (body_length n m)))
           = ''GS'' @ replicate (4 - length (dec_string (unat n))) (CHR '' '') @ dec_string (unat n)
       \<and> length (''GS'' @ replicate (4 - length (dec_string (unat n))) (CHR '' '')
                  @ dec_string (unat n)) = 6
       \<and> dec_string (unat n) \<noteq> []
       \<and> (\<forall>c\<in>set (dec_string (unat n)). isdigit c)
       \<and> digits_value 0 (dec_string (unat n)) = unat n
       \<and> (0 < n \<longrightarrow> decode_header (encode_header (body_length n m))
                         = (True, encode_header (body_length n m)))"
proof -
  let ?k = "unat n" and ?e = "encode_header (body_length n m)"
  have k: "?k \<le> 1029" using assms by (simp add: word_le_nat_alt)
  have len: "length (dec_string ?k) \<le> 4"
    using k by (intro dec_string_length) auto
  have b: "body_length n m = m\<lparr>m_body_length := n\<rparr>"
    by (rule body_length_small [OF assms])
  have bl: "m_body_length ?e = n"
    by (simp add: b encode_header_def Let_def)
  have d: "m_data ?e = ''GS'' @ replicate (4 - length (dec_string ?k)) (CHR '' '')
             @ dec_string ?k @ drop 6 (m_data m)"
    using encode_header_data [of "body_length n m"] assms by (simp add: b)
  have t: "take header_length (m_data ?e)
             = ''GS'' @ replicate (4 - length (dec_string ?k)) (CHR '' '') @ dec_string ?k"
    using len by (simp add: d header_length_def)
  have rt: "decode_header ?e = (True, ?e)" if "0 < n"
  proof -
    have pos: "1 \<le> ?k" using that by (simp add: word_less_nat_alt)
    have "decode_header ?e =
           (if 1 \<le> digits_value 0 (dec_string ?k) \<and> digits_value 0 (dec_string ?k) \<le> 1029
            then (True, ?e\<lparr>m_body_length := of_nat (digits_value 0 (dec_string ?k))\<rparr>)
            else (False, ?e\<lparr>m_body_length := 0\<rparr>))"
      using len dec_string_nonempty dec_string_digits
      by (intro decode_header_digits [OF t]) (auto simp: isspace_def)
    then show ?thesis
      using pos k bl by (simp add: dec_string_value)
  qed
  show ?thesis
    using t len rt dec_string_nonempty dec_string_digits dec_string_value by simp
qed

text \<open>The statement at \<open>n = 42\<close>: the header is \<open>GS\<close>, two blanks, \<open>42\<close>.\<close>

theorem encode_header_format_witness:
  "(42 :: 64 word) \<le> 1029
   \<and> take header_length (m_data (encode_header (body_length 42 new_Rtcm_Message))) = ''GS  42''
   \<and> decode_header (encode_header (body_length 42 new_Rtcm_Message))
        = (True, encode_header (body_length 42 new_Rtcm_Message))"
proof -
  have d: "dec_string 42 = ''42''" by code_simp
  have r: "replicate 2 (CHR '' '') = ''  ''" by (simp add: numeral_2_eq_2)
  show ?thesis
    using encode_header_format [of 42 new_Rtcm_Message] by (simp add: d r)
qed

text \<open>Claim C6 as the specification words it: at \<open>n = 42\<close> the header is not \<open>GS0042\<close>.\<close>

theorem encode_header_counterexample:
  "take header_length (m_data (encode_header (body_length 42 new_Rtcm_Message))) \<noteq> ''GS0042''"
  by code_simp

section \<open>Properties of the queue bridge\<close>

subsection \<open>The message an iteration builds\<close>

lemma envelope_body_length:
  assumes "length message < 2 ^ 64"
  shows "unat (m_body_length (envelope message)) = min (length message) 1029"
proof -
  have "m_body_length (envelope message) = min (of_nat (length message)) 1029"
    by (simp add: envelope_def encode_header_def copy_n_body_def Let_def body_length_min)
  moreover have "unat (of_nat (length message) :: 64 word) = length message"
    using assms by (simp add: unat_of_nat)
  ultimately show ?thesis
    by (simp add: min_def word_le_nat_alt)
qed

lemma envelope_body:
  assumes "length message < 2 ^ 64"
  shows "take (unat (m_body_length (envelope message))) (body (envelope message))
           = take 1029 message"
proof -
  let ?b = "body_length (of_nat (length message)) new_Rtcm_Message"
  let ?k = "min (length message) 1029"
  have bl: "unat (m_body_length ?b) = ?k"
    using envelope_body_length [OF assms]
    by (simp add: envelope_def encode_header_def copy_n_body_def Let_def)
  have le: "m_body_length (copy_n_body message ?b) \<le> 1029"
    by (simp add: copy_n_body_def body_length_min)
  have md: "m_data ?b = replicate 1035 (CHR 0x00)"
    by (simp add: body_length_def Let_def new_Rtcm_Message_def header_length_def
        max_body_length_def)
  have lt: "length (take ?k message) = ?k" by simp
  have d: "m_data (copy_n_body message ?b)
             = replicate 6 (CHR 0x00) @ take ?k message @ replicate (1029 - ?k) (CHR 0x00)"
    unfolding copy_n_body_def copy_to_def bl md header_length_def
    by (simp only: lt Rtcm_Message.simps take_replicate drop_replicate) simp
  have "drop 6 (m_data (envelope message)) = drop 6 (m_data (copy_n_body message ?b))"
    unfolding envelope_def encode_header_data [OF le] 
    using dec_string_length [of 4 "unat (m_body_length (copy_n_body message ?b))"] le
    by (simp add: word_le_nat_alt)
  then have "body (envelope message) = take ?k message @ replicate (1029 - ?k) (CHR 0x00)"
    by (simp add: body_def header_length_def d)
  then show ?thesis
    using envelope_body_length [OF assms] by (simp add: min_def)
qed


text \<open>
  Claim C10. \<open>body_length(n)\<close> stores the smaller of \<open>n\<close> and 1029 and touches nothing
  else; there is no failure path. So the message the queue bridge builds from a string
  has the smaller of the string's length and 1029 as body length and the string's first
  1029 bytes as body: a longer string is truncated to 1029 body bytes.
\<close>

theorem body_length_clamps:
  "m_body_length (body_length n m) = min n 1029
   \<and> m_data (body_length n m) = m_data m
   \<and> (length message < 2 ^ 64 \<longrightarrow>
        unat (m_body_length (envelope message)) = min (length message) 1029
        \<and> take (unat (m_body_length (envelope message))) (body (envelope message))
            = take 1029 message)"
proof -
  have "m_data (body_length n m) = m_data m"
    by (simp add: body_length_def Let_def)
  then show ?thesis
    using body_length_min envelope_body_length envelope_body by blast
qed

text \<open>The statement on a string of 2000 bytes: its first 1029 bytes are the body.\<close>

theorem body_length_clamps_witness:
  "length (replicate 2000 (CHR ''a'')) < 2 ^ 64
   \<and> m_body_length (body_length 2000 new_Rtcm_Message) = 1029
   \<and> unat (m_body_length (envelope (replicate 2000 (CHR ''a'')))) = 1029
   \<and> take (unat (m_body_length (envelope (replicate 2000 (CHR ''a'')))))
        (body (envelope (replicate 2000 (CHR ''a'')))) = replicate 1029 (CHR ''a'')"
  using body_length_clamps [of 2000 new_Rtcm_Message "replicate 2000 (CHR ''a'')"]
  by auto

subsection \<open>\<open>do_read_queue\<close>\<close>






section \<open>Properties of the broadcast room\<close>

lemma trim_recent_snoc: "trim_recent (xs @ [msg]) = Some [msg]"
proof (induction xs)
  case Nil
  show ?case by (subst trim_recent.simps) (simp add: max_recent_msgs_def)
next
  case (Cons x xs)
  show ?case
    by (subst trim_recent.simps) (simp add: max_recent_msgs_def pop_front_def Cons)
qed

lemma deliver_Some:
  "deliver msg w =
     Some \<lparr>room = (room w)\<lparr>m_recent_msgs := [msg]\<rparr>,
           store = (\<lambda>p. if p \<in> m_participants (room w) then store w p @ [msg]
                         else store w p)\<rparr>"
  by (simp add: deliver_def trim_recent_snoc)

lemma foldl_listener_deliver:
  "foldl (listener_deliver p) st msgs = st(p := st p @ msgs)"
  by (induction msgs arbitrary: st) (simp_all add: listener_deliver_def)

lemma join_store:
  "store (join p w) = (store w)(p := store w p @ m_recent_msgs (room w))"
  by (simp add: join_def foldl_listener_deliver)

lemma join_recent: "m_recent_msgs (room (join p w)) = m_recent_msgs (room w)"
  by (simp add: join_def)

lemma leave_recent: "m_recent_msgs (room (leave p w)) = m_recent_msgs (room w)"
  by (simp add: leave_def)

lemma run_room_recent:
  assumes "m_recent_msgs (room w0) = ring_of r0"
  shows "\<exists>w. run_room ops w0 = Some w \<and> m_recent_msgs (room w) = ring_of (last_delivered ops r0)"
  using assms
proof (induction ops arbitrary: w0 r0)
  case Nil
  then show ?case by simp
next
  case (Cons op ops)
  show ?case
  proof (cases op)
    case (Join p)
    then show ?thesis
      using Cons.IH [of "join p w0" r0] Cons.prems by (simp add: join_recent)
  next
    case (Leave p)
    then show ?thesis
      using Cons.IH [of "leave p w0" r0] Cons.prems by (simp add: leave_recent)
  next
    case (Deliver msg)
    let ?w = "\<lparr>room = (room w0)\<lparr>m_recent_msgs := [msg]\<rparr>,
           store = (\<lambda>p. if p \<in> m_participants (room w0) then store w0 p @ [msg]
                         else store w0 p)\<rparr>"
    have "m_recent_msgs (room ?w) = ring_of (Some msg)" by (simp add: ring_of_def)
    from Cons.IH [OF this] show ?thesis
      using Deliver by (simp add: deliver_Some)
  qed
qed

text \<open>
  Claim C8. Any sequence of \<open>join\<close>, \<open>leave\<close> and \<open>deliver\<close> calls on a new room runs
  through without reaching undefined behaviour. Afterwards the replay ring is empty if
  nothing was delivered and holds exactly the last delivered message otherwise; a
  participant that joins then gets exactly the ring's content appended to what it had,
  and no other listener is touched. One more \<open>deliver\<close> leaves exactly its message in the
  ring, changes no listener when the participant set is empty, and a participant joining
  after it receives exactly that message.
\<close>

theorem room_replay:
  "case run_room ops new_room_world of
     None \<Rightarrow> False
   | Some w \<Rightarrow>
       m_recent_msgs (room w) = ring_of (last_delivered ops None)
     \<and> store (join p w) p = store w p @ ring_of (last_delivered ops None)
     \<and> (\<forall>q. q \<noteq> p \<longrightarrow> store (join p w) q = store w q)
     \<and> (case deliver msg w of
          None \<Rightarrow> False
        | Some w' \<Rightarrow>
            m_recent_msgs (room w') = [msg]
          \<and> (m_participants (room w) = {} \<longrightarrow> store w' = store w)
          \<and> store (join p w') p = store w' p @ [msg])"
proof -
  have "m_recent_msgs (room new_room_world) = ring_of None"
    by (simp add: new_room_world_def ring_of_def)
  from run_room_recent [OF this, of ops] obtain w where
    w: "run_room ops new_room_world = Some w"
    and r: "m_recent_msgs (room w) = ring_of (last_delivered ops None)"
    by blast
  show ?thesis
    unfolding w deliver_Some by (simp add: r join_store)
qed

text \<open>
  The statement after \<open>deliver\<close>, \<open>join 3\<close>, \<open>deliver\<close>, \<open>leave 3\<close>: the participant
  set is empty again, listener 5 joins and gets the second message, and a third
  \<open>deliver\<close> replaces the ring's content.
\<close>

theorem room_replay_witness:
  "run_room [Deliver new_Rtcm_Message, Join 3, Deliver (envelope ''a''), Leave 3] new_room_world
     = Some \<lparr>room = \<lparr>m_participants = {}, m_recent_msgs = [envelope ''a'']\<rparr>,
             store = (\<lambda>p. if p = 3 then [new_Rtcm_Message, envelope ''a''] else [])\<rparr>
   \<and> store (join 5 \<lparr>room = \<lparr>m_participants = {}, m_recent_msgs = [envelope ''a'']\<rparr>,
             store = (\<lambda>p. if p = 3 then [new_Rtcm_Message, envelope ''a''] else [])\<rparr>) 5
       = [envelope ''a'']
   \<and> deliver (envelope ''b'')
        \<lparr>room = \<lparr>m_participants = {}, m_recent_msgs = [envelope ''a'']\<rparr>,
         store = (\<lambda>p. if p = 3 then [new_Rtcm_Message, envelope ''a''] else [])\<rparr>
       = Some \<lparr>room = \<lparr>m_participants = {}, m_recent_msgs = [envelope ''b'']\<rparr>,
               store = (\<lambda>p. if p = 3 then [new_Rtcm_Message, envelope ''a''] else [])\<rparr>"
proof -
  have run: "run_room [Deliver new_Rtcm_Message, Join 3, Deliver (envelope ''a''), Leave 3]
               new_room_world
     = Some \<lparr>room = \<lparr>m_participants = {}, m_recent_msgs = [envelope ''a'']\<rparr>,
             store = (\<lambda>p. if p = 3 then [new_Rtcm_Message, envelope ''a''] else [])\<rparr>"
    by (simp add: deliver_Some join_def leave_def listener_deliver_def new_room_world_def
        fun_eq_iff)
  show ?thesis
    using room_replay [of "[Deliver new_Rtcm_Message, Join 3, Deliver (envelope ''a''), Leave 3]"
        5 "envelope ''b''"]
    unfolding run
    by (simp add: ring_of_def deliver_Some)
qed

section \<open>Properties of the bit fields\<close>

lemma length_bin_digits: "length (bin_digits w v) = w"
  by (induction w arbitrary: v) simp_all

lemma bits_to_uint_snoc:
  "bits_to_uint (xs @ [b]) = 2 * bits_to_uint xs + (if b then 1 else 0)"
  by (simp add: bits_to_uint_def)

lemma bits_to_uint_Nil: "bits_to_uint [] = 0"
  by (simp add: bits_to_uint_def)

lemma bits_to_uint_bin_digits: "bits_to_uint (bin_digits w v) = v mod 2 ^ w"
proof (induction w arbitrary: v)
  case 0
  show ?case by (simp add: bits_to_uint_Nil)
next
  case (Suc w)
  have "v mod (2 * 2 ^ w) = 2 * (v div 2 mod 2 ^ w) + v mod 2"
    by (simp add: mod_mult2_eq)
  then show ?case
    by (simp add: bits_to_uint_snoc Suc odd_iff_mod_2_eq_one)
qed

lemma bits_to_uint_less: "bits_to_uint bs < 2 ^ length bs"
proof (induction bs rule: rev_induct)
  case Nil
  show ?case by (simp add: bits_to_uint_Nil)
next
  case (snoc b bs)
  then show ?case by (simp add: bits_to_uint_snoc)
qed

lemma bin_digits_bits_to_uint: "bin_digits (length bs) (bits_to_uint bs) = bs"
proof (induction bs rule: rev_induct)
  case Nil
  show ?case by simp
next
  case (snoc b bs)
  then show ?case by (simp add: bits_to_uint_snoc)
qed

lemma length_to_bits: "length (to_bits v w) = w"
  by (simp add: to_bits_def length_bin_digits)

lemma to_bits_in_range:
  assumes "v < 2 ^ w"
  shows "to_bits v w = bin_digits w v"
proof -
  have "v \<le> 2 ^ w - 1" using assms by arith
  then have "min v (2 ^ w - 1) = v" by (rule min_absorb1)
  then show ?thesis by (simp only: to_bits_def)
qed

lemma bits_to_uint_to_bits: "v < 2 ^ w \<Longrightarrow> bits_to_uint (to_bits v w) = v"
  by (simp add: to_bits_in_range bits_to_uint_bin_digits)

lemma to_bits_bits_to_uint: "to_bits (bits_to_uint bs) (length bs) = bs"
  by (simp add: to_bits_in_range bits_to_uint_less bin_digits_bits_to_uint)

lemma length_bin_to_binary_data: "length (bin_to_binary_data s) = length s div 8"
  by (simp add: bin_to_binary_data_def)

lemma bin_to_binary_data_Nil: "bin_to_binary_data [] = []"
  by (simp add: bin_to_binary_data_def)

lemma bin_to_binary_data_byte:
  assumes "length a = 8"
  shows "bin_to_binary_data (a @ s) = of_nat (bits_to_uint a) # bin_to_binary_data s"
proof -
  have l: "length (a @ s) div 8 = Suc (length s div 8)"
    using assms by simp
  have u: "[0..<Suc (length s div 8)] = 0 # map Suc [0..<length s div 8]"
    by (simp add: upt_conv_Cons map_Suc_upt del: upt_Suc)
  show ?thesis
    unfolding bin_to_binary_data_def l u using assms by (simp add: comp_def)
qed

lemma bin_to_binary_data_append:
  assumes "8 dvd length a"
  shows "bin_to_binary_data (a @ s) = bin_to_binary_data a @ bin_to_binary_data s"
proof -
  obtain n where n: "length a = 8 * n" using assms by (auto simp: dvd_def)
  then show ?thesis
  proof (induction n arbitrary: a)
    case 0
    then show ?case by (simp add: bin_to_binary_data_Nil)
  next
    case (Suc n)
    let ?h = "take 8 a" and ?t = "drop 8 a"
    have h: "length ?h = 8" using Suc.prems by simp
    have t: "length ?t = 8 * n" using Suc.prems by simp
    have a: "a = ?h @ ?t" by simp
    have "bin_to_binary_data (a @ s) = bin_to_binary_data (?h @ (?t @ s))"
      by (metis a append_assoc)
    also have "\<dots> = of_nat (bits_to_uint ?h) # bin_to_binary_data (?t @ s)"
      by (rule bin_to_binary_data_byte [OF h])
    also have "\<dots> = of_nat (bits_to_uint ?h) # bin_to_binary_data ?t @ bin_to_binary_data s"
      using Suc.IH [OF t] by simp
    also have "\<dots> = bin_to_binary_data (?h @ ?t) @ bin_to_binary_data s"
      using bin_to_binary_data_byte [OF h, of ?t] by simp
    finally show ?case by simp
  qed
qed

lemma binary_data_to_bin_append:
  "binary_data_to_bin (a @ b) = binary_data_to_bin a @ binary_data_to_bin b"
  by (simp add: binary_data_to_bin_def)

lemma length_binary_data_to_bin: "length (binary_data_to_bin s) = 8 * length s"
  by (induction s) (simp_all add: binary_data_to_bin_def length_to_bits)

lemma byte_of_bits_of_byte:
  "(of_nat (bits_to_uint (to_bits (unat b) 8)) :: 8 word) = b"
proof -
  have "unat b < 2 ^ 8" using unsigned_less [of b] by simp
  then show ?thesis by (simp add: bits_to_uint_to_bits)
qed

lemma bits_of_byte_of_bits:
  assumes "length a = 8"
  shows "to_bits (unat (of_nat (bits_to_uint a) :: 8 word)) 8 = a"
proof -
  have "bits_to_uint a < 2 ^ 8" using bits_to_uint_less [of a] assms by simp
  then have "unat (of_nat (bits_to_uint a) :: 8 word) = bits_to_uint a"
    by (simp add: unat_of_nat)
  then show ?thesis using to_bits_bits_to_uint [of a] assms by simp
qed

lemma bin_to_binary_data_inverse:
  "bin_to_binary_data (binary_data_to_bin s) = s"
proof (induction s)
  case Nil
  show ?case by (simp add: binary_data_to_bin_def bin_to_binary_data_Nil)
next
  case (Cons b s)
  have "binary_data_to_bin (b # s) = to_bits (unat b) 8 @ binary_data_to_bin s"
    by (simp add: binary_data_to_bin_def)
  then show ?case
    using Cons by (simp add: bin_to_binary_data_byte length_to_bits byte_of_bits_of_byte)
qed

lemma binary_data_to_bin_inverse:
  assumes "8 dvd length s"
  shows "binary_data_to_bin (bin_to_binary_data s) = s"
proof -
  obtain n where n: "length s = 8 * n" using assms by (auto simp: dvd_def)
  then show ?thesis
  proof (induction n arbitrary: s)
    case 0
    then show ?case by (simp add: binary_data_to_bin_def bin_to_binary_data_Nil)
  next
    case (Suc n)
    let ?h = "take 8 s" and ?t = "drop 8 s"
    have h: "length ?h = 8" using Suc.prems by simp
    have t: "length ?t = 8 * n" using Suc.prems by simp
    have "bin_to_binary_data s = bin_to_binary_data (?h @ ?t)" by simp
    also have "\<dots> = of_nat (bits_to_uint ?h) # bin_to_binary_data ?t"
      by (rule bin_to_binary_data_byte [OF h])
    finally have "binary_data_to_bin (bin_to_binary_data s)
                    = to_bits (unat (of_nat (bits_to_uint ?h) :: 8 word)) 8
                        @ binary_data_to_bin (bin_to_binary_data ?t)"
      by (simp add: binary_data_to_bin_def)
    also have "\<dots> = ?h @ ?t"
      using Suc.IH [OF t] bits_of_byte_of_bits [OF h] by simp
    finally show ?case by simp
  qed
qed

section \<open>Properties of CRC-24Q\<close>

lemma crc24q_poly_bits: "bit crc24q_poly 0" "crc24q_poly \<noteq> 0"
  by (simp_all add: crc24q_poly_def)

lemma bit_shl1:
  "bit (x * 2 :: 24 word) n \<longleftrightarrow> 0 < n \<and> n < 24 \<and> bit x (n - 1)"
  using bit_double_iff [of x n] by (auto simp: mult.commute possible_bit_word)

lemma xor_cancel_right:
  fixes a b p :: "24 word"
  assumes "a XOR p = b XOR p"
  shows "a = b"
proof -
  have "a = (a XOR p) XOR p" by (simp add: xor.assoc)
  also have "\<dots> = (b XOR p) XOR p" using assms by simp
  also have "\<dots> = b" by (simp add: xor.assoc)
  finally show ?thesis .
qed

lemma crc24q_shift_xor:
  "crc24q_shift (x XOR y) = crc24q_shift x XOR crc24q_shift y"
  by (cases "bit x 23"; cases "bit y 23")
     (simp_all add: crc24q_shift_def bit_xor_iff push_bit_xor ac_simps)

lemma crc24q_shift_0: "crc24q_shift 0 = 0"
  by (simp add: crc24q_shift_def)

lemma crc24q_shift_low_bit: "bit (crc24q_shift x) 0 = bit x 23"
  by (simp add: crc24q_shift_def bit_xor_iff crc24q_poly_bits bit_shl1)

lemma push_bit_1_inj:
  fixes x y :: "24 word"
  assumes "push_bit 1 x = push_bit 1 y" and "bit x 23 = bit y 23"
  shows "x = y"
proof (rule bit_word_eqI)
  fix n assume n: "n < LENGTH(24)"
  show "bit x n = bit y n"
  proof (cases "n = 23")
    case True
    then show ?thesis using assms(2) by simp
  next
    case False
    then have "Suc n < 24" using n by simp
    then have "bit (push_bit 1 x) (Suc n) = bit x n" "bit (push_bit 1 y) (Suc n) = bit y n"
      by (simp_all add: bit_shl1)
    then show ?thesis using assms(1) by simp
  qed
qed

lemma crc24q_shift_inj:
  assumes "crc24q_shift x = crc24q_shift y"
  shows "x = y"
proof -
  have b: "bit x 23 = bit y 23"
    using assms crc24q_shift_low_bit by metis
  then have "push_bit 1 x = push_bit 1 y"
    using assms by (cases "bit x 23") (auto simp: crc24q_shift_def dest: xor_cancel_right)
  then show ?thesis using b by (rule push_bit_1_inj)
qed

lemma crc24q_shift_pow_xor:
  "(crc24q_shift ^^ k) (x XOR y) = (crc24q_shift ^^ k) x XOR (crc24q_shift ^^ k) y"
  by (induction k) (simp_all add: crc24q_shift_xor)

lemma crc24q_shift_pow_inj:
  "(crc24q_shift ^^ k) x = (crc24q_shift ^^ k) y \<Longrightarrow> x = y"
  by (induction k) (auto dest: crc24q_shift_inj)

lemma crc24q_shift_pow_small:
  assumes "k \<le> 8"
  shows "(crc24q_shift ^^ k) (take_bit 16 c) = push_bit k (take_bit 16 c)"
  using assms
proof (induction k)
  case 0
  show ?case by simp
next
  case (Suc k)
  have "\<not> bit (push_bit k (take_bit 16 c)) 23"
    using Suc.prems by (auto simp: bit_push_bit_iff bit_take_bit_iff)
  then have "crc24q_shift (push_bit k (take_bit 16 c)) = push_bit (Suc k) (take_bit 16 c)"
    by (simp add: crc24q_shift_def push_bit_Suc) 
  then show ?case using Suc by simp
qed

lemma crc24q_table_nth: "crc24q_table ! unat (i :: 8 word) = crc24q_table_entry i"
proof -
  have "unat i < 256" using unsigned_less [of i] by simp
  then show ?thesis by (simp add: crc24q_table_def del: upt_Suc)
qed

lemma top_byte_xor:
  fixes c :: "24 word" and x :: "8 word"
  shows "push_bit 16 (ucast (ucast (drop_bit 16 c) XOR x) :: 24 word) XOR take_bit 16 c
           = c XOR push_bit 16 (ucast x)"
  by (rule bit_word_eqI) (auto simp: bit_simps)

lemma shl8_low:
  fixes c :: "24 word"
  shows "push_bit 8 (take_bit 16 c) = push_bit 8 c"
  by (rule bit_word_eqI) (auto simp: bit_simps)

lemma crc24q_update_shift:
  "crc24q_update c x = (crc24q_shift ^^ 8) (c XOR push_bit 16 (ucast x))"
proof -
  have "crc24q_update c x
          = (crc24q_shift ^^ 8) (push_bit 16 (ucast (ucast (drop_bit 16 c) XOR x)))
              XOR push_bit 8 (take_bit 16 c)"
    by (simp only: crc24q_update_def crc24q_table_nth crc24q_table_entry_def shl8_low)
  also have "\<dots> = (crc24q_shift ^^ 8) (push_bit 16 (ucast (ucast (drop_bit 16 c) XOR x)))
              XOR (crc24q_shift ^^ 8) (take_bit 16 c)"
    by (simp only: crc24q_shift_pow_small [of 8 c, simplified])
  also have "\<dots> = (crc24q_shift ^^ 8)
                (push_bit 16 (ucast (ucast (drop_bit 16 c) XOR x)) XOR take_bit 16 c)"
    by (simp only: crc24q_shift_pow_xor)
  finally show ?thesis by (simp only: top_byte_xor)
qed

lemma crc24q_update_inj_state:
  assumes "crc24q_update c x = crc24q_update c' x"
  shows "c = c'"
proof -
  have "c XOR push_bit 16 (ucast x) = c' XOR push_bit 16 (ucast x)"
    using assms unfolding crc24q_update_shift by (rule crc24q_shift_pow_inj)
  then show ?thesis by (rule xor_cancel_right)
qed

lemma byte_in_register_inj:
  fixes x y :: "8 word"
  assumes "(push_bit 16 (ucast x) :: 24 word) = push_bit 16 (ucast y)"
  shows "x = y"
proof (rule bit_word_eqI)
  fix n assume n: "n < LENGTH(8)"
  have "bit (push_bit 16 (ucast x) :: 24 word) (n + 16) = bit x n"
       "bit (push_bit 16 (ucast y) :: 24 word) (n + 16) = bit y n"
    using n by (auto simp: bit_simps)
  then show "bit x n = bit y n" using assms by simp
qed

lemma crc24q_update_inj_byte:
  assumes "crc24q_update c x = crc24q_update c y"
  shows "x = y"
proof -
  have "c XOR push_bit 16 (ucast x) = c XOR push_bit 16 (ucast y)"
    using assms unfolding crc24q_update_shift by (rule crc24q_shift_pow_inj)
  then have "push_bit 16 (ucast x) XOR c = push_bit 16 (ucast y) XOR c"
    by (simp add: xor.commute)
  then have "(push_bit 16 (ucast x) :: 24 word) = push_bit 16 (ucast y)"
    by (rule xor_cancel_right)
  then show ?thesis by (rule byte_in_register_inj)
qed

lemma foldl_crc24q_update_inj:
  "foldl crc24q_update c s = foldl crc24q_update c' s \<Longrightarrow> c = c'"
proof (induction s arbitrary: c c')
  case Nil
  then show ?case by simp
next
  case (Cons x s)
  then have "crc24q_update c x = crc24q_update c' x" by simp
  then show ?case by (rule crc24q_update_inj_state)
qed

text \<open>A change confined to one byte changes the CRC.\<close>

lemma compute_crc24q_one_byte:
  assumes "k < length s" and "y \<noteq> s ! k"
  shows "compute_crc24q (s[k := y]) \<noteq> compute_crc24q s"
proof
  assume eq: "compute_crc24q (s[k := y]) = compute_crc24q s"
  let ?pre = "take k s" and ?post = "drop (Suc k) s"
  let ?c = "foldl crc24q_update 0 ?pre"
  have s: "s = ?pre @ s ! k # ?post"
    using assms(1) by (simp add: id_take_nth_drop)
  have s': "s[k := y] = ?pre @ y # ?post"
    using assms(1) by (simp add: upd_conv_take_nth_drop)
  have a: "compute_crc24q s = foldl crc24q_update (crc24q_update ?c (s ! k)) ?post"
    by (subst s) (simp add: compute_crc24q_def)
  have b: "compute_crc24q (s[k := y]) = foldl crc24q_update (crc24q_update ?c y) ?post"
    by (subst s') (simp add: compute_crc24q_def)
  have "crc24q_update ?c y = crc24q_update ?c (s ! k)"
    using eq unfolding a b by (rule foldl_crc24q_update_inj)
  then have "y = s ! k" by (rule crc24q_update_inj_byte)
  then show False using assms(2) by simp
qed

lemma length_crc_bytes: "length (crc_bytes c) = 3"
  by (simp add: crc_bytes_def length_bin_to_binary_data length_to_bits)

lemma crc_bytes_inj:
  assumes "crc_bytes c = crc_bytes c'"
  shows "c = c'"
proof -
  have r: "bits_to_uint (binary_data_to_bin (crc_bytes d)) = unat d" for d
  proof -
    have "unat d < 2 ^ 24" using unsigned_less [of d] by simp
    then show ?thesis
      by (simp add: crc_bytes_def binary_data_to_bin_inverse length_to_bits
          bits_to_uint_to_bits)
  qed
  have "unat c = unat c'" using assms r by metis
  then show ?thesis by (simp add: word_unat_eq_iff)
qed

lemma flip_message_bit_changes:
  fixes x :: "8 word"
  assumes "j < 8"
  shows "x XOR push_bit j 1 \<noteq> x"
proof
  assume "x XOR push_bit j 1 = x"
  then have "bit (x XOR push_bit j 1) j = bit x j" by simp
  then show False using assms by (simp add: bit_simps)
qed

lemma check_CRC_iff:
  "check_CRC message \<longleftrightarrow>
     drop (length message - 3) message
       = crc_bytes (compute_crc24q (take (length message - 3) message))"
  by (simp add: check_CRC_def Let_def)

lemma check_CRC_flip:
  assumes "check_CRC message" and "k < length message" and "j < 8"
  shows "\<not> check_CRC (flip_message_bit message k j)"
proof
  let ?n = "length message - 3"
  let ?m' = "flip_message_bit message k j"
  let ?y = "message ! k XOR push_bit j 1"
  assume c': "check_CRC ?m'"
  have len: "length ?m' = length message" by (simp add: flip_message_bit_def)
  have ne: "?y \<noteq> message ! k" using assms(3) by (rule flip_message_bit_changes)
  have c: "drop ?n message = crc_bytes (compute_crc24q (take ?n message))"
    using assms(1) by (simp add: check_CRC_iff)
  have c2: "drop ?n ?m' = crc_bytes (compute_crc24q (take ?n ?m'))"
    using c' by (simp add: check_CRC_iff len)
  show False
  proof (cases "k < ?n")
    case True
    have t: "take ?n ?m' = (take ?n message)[k := ?y]"
      by (simp add: flip_message_bit_def take_update_swap)
    have d: "drop ?n ?m' = drop ?n message"
      using True by (simp add: flip_message_bit_def)
    have "crc_bytes (compute_crc24q ((take ?n message)[k := ?y]))
            = crc_bytes (compute_crc24q (take ?n message))"
      using c c2 t d by simp
    then have "compute_crc24q ((take ?n message)[k := ?y]) = compute_crc24q (take ?n message)"
      by (rule crc_bytes_inj)
    moreover have "compute_crc24q ((take ?n message)[k := ?y]) \<noteq> compute_crc24q (take ?n message)"
      using True ne assms(2) by (intro compute_crc24q_one_byte) simp_all
    ultimately show False by simp
  next
    case False
    have t: "take ?n ?m' = take ?n message"
      using False by (simp add: flip_message_bit_def)
    have "drop ?n ?m' = drop ?n message"
      using c c2 t by simp
    then have "drop ?n ?m' ! (k - ?n) = drop ?n message ! (k - ?n)" by simp
    then have "?m' ! k = message ! k"
      using False assms(2) len by simp
    then show False
      using ne assms(2) by (simp add: flip_message_bit_def)
  qed
qed

lemma top_bit_flip:
  fixes c :: "24 word"
  assumes "m < 24"
  shows "bit (c XOR push_bit m 1) m \<longleftrightarrow> \<not> bit c m"
  using assms by (simp add: bit_simps)

lemma top_bit_shifted_out:
  fixes c :: "24 word"
  assumes "23 \<le> m"
  shows "push_bit 1 (c XOR push_bit m 1) = push_bit 1 c"
proof (rule bit_word_eqI)
  fix n assume "n < LENGTH(24)"
  then have "n - 1 \<noteq> m" using assms by simp
  then show "bit (push_bit 1 (c XOR push_bit m 1)) n = bit (push_bit 1 c) n"
    by (auto simp: bit_shl1 bit_simps)
qed

lemma crc24q_bit_shift: "crc24q_bit c b = crc24q_shift (c XOR push_bit 23 (of_bool b))"
proof (cases b)
  case True
  have m: "(23 :: nat) < 24" and l: "(23 :: nat) \<le> 23" by simp_all
  have "crc24q_shift (c XOR push_bit 23 1)
          = (if \<not> bit c 23 then push_bit 1 c XOR crc24q_poly else push_bit 1 c)"
    unfolding crc24q_shift_def top_bit_flip [OF m] top_bit_shifted_out [OF l] ..
  then show ?thesis
    using True by (simp add: crc24q_bit_def)
next
  case False
  then show ?thesis by (simp add: crc24q_bit_def crc24q_shift_def)
qed

lemma crc24q_shift_pow_single:
  assumes "j + k \<le> 23"
  shows "(crc24q_shift ^^ k) (push_bit j (of_bool b)) = push_bit (j + k) (of_bool b)"
  using assms
proof (induction k)
  case 0
  show ?case by simp
next
  case (Suc k)
  have nb: "\<not> bit (push_bit (j + k) (of_bool b) :: 24 word) 23"
    using Suc.prems by (auto simp: bit_simps)
  have "crc24q_shift (push_bit (j + k) (of_bool b)) = push_bit (j + Suc k) (of_bool b)"
    using nb by (simp add: crc24q_shift_def)
  then show ?case using Suc by simp
qed

lemma digits_split:
  assumes "i = Suc j"
  shows "(push_bit j (of_nat v) :: 24 word)
     = push_bit i (of_nat (v div 2)) XOR push_bit j (of_bool (odd v))"
  unfolding assms
proof (rule bit_word_eqI)
  fix n assume n: "n < LENGTH(24)"
  let ?l = "push_bit j (of_nat v) :: 24 word"
  let ?r = "push_bit (Suc j) (of_nat (v div 2)) XOR push_bit j (of_bool (odd v)) :: 24 word"
  consider "n < j" | "n = j" | "j < n" by linarith
  then show "bit ?l n = bit ?r n"
  proof cases
    case 1
    then show ?thesis by (simp add: bit_simps)
  next
    case 2
    then show ?thesis using n by (simp add: bit_simps bit_0)
  next
    case 3
    then obtain m where m: "n = Suc (j + m)" by (metis less_imp_Suc_add)
    have "bit v (Suc m) = bit (v div 2) m" by (rule bit_Suc)
    then show ?thesis using n m by (simp add: bit_simps bit_shl1)
  qed
qed

lemma foldl_crc24q_bit_digits:
  assumes "k \<le> 24"
  shows "foldl crc24q_bit c (bin_digits k v)
           = (crc24q_shift ^^ k) (c XOR push_bit (24 - k) (of_nat v))"
  using assms
proof (induction k arbitrary: v)
  case 0
  have "(push_bit 24 (of_nat v) :: 24 word) = 0"
    by (rule bit_word_eqI) (auto simp: bit_simps)
  then show ?case by simp
next
  case (Suc k)
  let ?A = "c XOR push_bit (24 - k) (of_nat (v div 2))"
  have k: "k \<le> 23" using Suc.prems by simp
  have "foldl crc24q_bit c (bin_digits (Suc k) v)
          = crc24q_bit ((crc24q_shift ^^ k) ?A) (odd v)"
    using Suc.IH [of "v div 2"] k by simp
  also have "\<dots> = crc24q_shift ((crc24q_shift ^^ k) ?A XOR push_bit 23 (of_bool (odd v)))"
    by (rule crc24q_bit_shift)
  also have "push_bit 23 (of_bool (odd v))
               = (crc24q_shift ^^ k) (push_bit (23 - k) (of_bool (odd v)))"
    using crc24q_shift_pow_single [of "23 - k" k "odd v"] k by simp
  also have "(crc24q_shift ^^ k) ?A XOR (crc24q_shift ^^ k) (push_bit (23 - k) (of_bool (odd v)))
               = (crc24q_shift ^^ k) (?A XOR push_bit (23 - k) (of_bool (odd v)))"
    by (simp only: crc24q_shift_pow_xor)
  also have "?A XOR push_bit (23 - k) (of_bool (odd v)) = c XOR push_bit (23 - k) (of_nat v)"
  proof -
    have "24 - k = Suc (23 - k)" using k by simp
    from digits_split [OF this, of v] show ?thesis by (simp only: xor.assoc)
  qed
  finally show ?case using k by (simp add: Suc_diff_le)
qed

lemma crc24q_update_bits:
  "crc24q_update c x = foldl crc24q_bit c (to_bits (unat x) 8)"
proof -
  have "unat x < 2 ^ 8" using unsigned_less [of x] by simp
  then have "to_bits (unat x) 8 = bin_digits 8 (unat x)" by (rule to_bits_in_range)
  then show ?thesis
    using foldl_crc24q_bit_digits [of 8 c "unat x"] by (simp add: crc24q_update_shift)
qed

lemma foldl_crc24q_update_bits:
  "foldl crc24q_update c s = foldl crc24q_bit c (binary_data_to_bin s)"
proof (induction s arbitrary: c)
  case Nil
  show ?case by (simp add: binary_data_to_bin_def)
next
  case (Cons x s)
  have "binary_data_to_bin (x # s) = to_bits (unat x) 8 @ binary_data_to_bin s"
    by (simp add: binary_data_to_bin_def)
  then show ?case using Cons by (simp add: crc24q_update_bits)
qed

lemma compute_crc24q_bitwise: "compute_crc24q s = crc24q_bitwise (binary_data_to_bin s)"
  by (simp add: compute_crc24q_def crc24q_bitwise_def foldl_crc24q_update_bits)

lemma funpow_8: "(f ^^ 8) x = f (f (f (f (f (f (f (f x)))))))"
  by (simp add: eval_nat_numeral)

lemma crc_empty_frame: "compute_crc24q [0xD3, 0, 0] = 0x47EA4B"
  by (simp add: compute_crc24q_def crc24q_update_shift funpow_8 crc24q_shift_def crc24q_poly_def)

lemma bin_digits_numeral:
  "bin_digits (numeral k) v = bin_digits (pred_numeral k) (v div 2) @ [odd v]"
  by (simp add: numeral_eq_Suc)

lemma upt_3: "[0..<3] = [0, 1, 2]"
  by code_simp

lemma crc_bytes_empty_frame: "crc_bytes 0x47EA4B = [0x47, 0xEA, 0x4B]"
  by (simp add: crc_bytes_def to_bits_def bin_to_binary_data_def bin_digits_numeral
      bits_to_uint_def upt_3)

text \<open>
  Claim C2. For a message of at least 3 bytes, \<open>check_CRC\<close> holds exactly when the last
  3 bytes are the CRC-24Q of the bytes before them, the CRC being the remainder of the
  bit-by-bit division by 0x1864CFB, most significant bit first, from 0 and with no final
  XOR, written as 3 bytes; and when a message passes, the message with any one of its
  bits inverted does not.
\<close>

theorem check_CRC_single_bit:
  assumes "3 \<le> length message"
  shows "(check_CRC message \<longleftrightarrow>
            drop (length message - 3) message
              = crc_bytes (crc24q_bitwise
                  (binary_data_to_bin (take (length message - 3) message))))
       \<and> (check_CRC message \<and> k < length message \<and> j < 8
            \<longrightarrow> \<not> check_CRC (flip_message_bit message k j))"
  using check_CRC_flip [of message k j]
  by (simp add: check_CRC_iff compute_crc24q_bitwise)

text \<open>
  The statement on the empty frame D3 00 00 47 EA 4B: it passes, and with the lowest bit
  of its second byte inverted it does not.
\<close>

theorem check_CRC_single_bit_witness:
  "3 \<le> length [0xD3, 0, 0, 0x47, 0xEA, 0x4B :: 8 word]
   \<and> check_CRC [0xD3, 0, 0, 0x47, 0xEA, 0x4B]
   \<and> \<not> check_CRC (flip_message_bit [0xD3, 0, 0, 0x47, 0xEA, 0x4B] 1 0)
   \<and> flip_message_bit [0xD3, 0, 0, 0x47, 0xEA, 0x4B] 1 0 = [0xD3, 1, 0, 0x47, 0xEA, 0x4B]"
proof -
  let ?m = "[0xD3, 0, 0, 0x47, 0xEA, 0x4B] :: 8 word list"
  have l: "3 \<le> length ?m" and k: "1 < length ?m" and j: "(0 :: nat) < 8" by simp_all
  have c: "check_CRC ?m"
    by (simp add: check_CRC_iff crc_empty_frame crc_bytes_empty_frame)
  have f: "flip_message_bit ?m 1 0 = [0xD3, 1, 0, 0x47, 0xEA, 0x4B]"
    by (simp add: flip_message_bit_def)
  have n: "\<not> check_CRC (flip_message_bit ?m 1 0)"
    using check_CRC_single_bit [OF l, of 1 0] c k j by blast
  show ?thesis
    using l c n f by blast
qed

section \<open>Properties of the frame\<close>

lemma pad_to_byte_dvd: "8 dvd length (pad_to_byte s)"
proof -
  define r where "r = length s mod 8"
  define q where "q = length s div 8"
  have l: "length s = 8 * q + r" by (simp add: r_def q_def)
  have r: "r < 8" by (simp add: r_def)
  have "length (pad_to_byte s) = length s + (8 - r) mod 8"
    by (simp add: pad_to_byte_def r_def)
  also have "\<dots> = (if r = 0 then 8 * q else 8 * (q + 1))"
    using r by (simp add: l)
  finally show ?thesis by simp
qed

lemma pad_to_byte_whole: "8 dvd length s \<Longrightarrow> pad_to_byte s = s"
  by (simp add: pad_to_byte_def dvd_eq_mod_eq_0)

lemma bin_digits_0: "bin_digits w 0 = replicate w False"
  by (induction w) (simp_all add: replicate_append_same)

lemma length_frame_header:
  "length (preamble @ reserved_field @ to_bits n 10) = 24"
  by (simp add: preamble_def reserved_field_def length_to_bits)

lemma frame_dvd:
  "8 dvd length (preamble @ reserved_field @ to_bits n 10 @ pad_to_byte data)"
proof -
  have e: "length (preamble @ reserved_field @ to_bits n 10 @ pad_to_byte data)
             = 8 * 3 + length (pad_to_byte data)"
    using length_frame_header [of n] by simp
  show ?thesis
    unfolding e using pad_to_byte_dvd [of data] by (intro dvd_add) simp_all
qed

lemma build_message_split:
  "build_message data =
     bin_to_binary_data
       (preamble @ reserved_field @ to_bits (length (pad_to_byte data) div 8) 10
          @ pad_to_byte data)
     @ crc_bytes (compute_crc24q (bin_to_binary_data
         (preamble @ reserved_field @ to_bits (length (pad_to_byte data) div 8) 10
            @ pad_to_byte data)))"
proof -
  let ?s = "pad_to_byte data"
  let ?m = "preamble @ reserved_field @ to_bits (length ?s div 8) 10 @ ?s"
  let ?c = "to_bits (unat (compute_crc24q (bin_to_binary_data ?m))) 24"
  have d: "8 dvd length ?m" by (rule frame_dvd)
  have "build_message data = bin_to_binary_data (?m @ ?c)"
    by (simp only: build_message_def Let_def add_CRC_def)
  also have "\<dots> = bin_to_binary_data ?m @ bin_to_binary_data ?c"
    by (rule bin_to_binary_data_append [OF d])
  also have "\<dots> = bin_to_binary_data ?m
                @ crc_bytes (compute_crc24q (bin_to_binary_data ?m))"
    by (simp only: crc_bytes_def)
  finally show ?thesis .
qed

lemma length_build_message:
  "length (build_message data) = 3 + length (pad_to_byte data) div 8 + 3"
proof -
  have "(24 + length (pad_to_byte data)) div 8 = 3 + length (pad_to_byte data) div 8"
    by simp
  then show ?thesis
    unfolding build_message_split
    using length_frame_header [of "length (pad_to_byte data) div 8"]
    by (simp add: length_bin_to_binary_data length_crc_bytes)
qed

lemma check_CRC_build_message: "check_CRC (build_message data)"
  by (simp add: check_CRC_iff build_message_split length_crc_bytes)

lemma binary_data_to_bin_build_message:
  "binary_data_to_bin (build_message data) =
     preamble @ reserved_field @ to_bits (length (pad_to_byte data) div 8) 10
       @ pad_to_byte data
       @ binary_data_to_bin (drop (length (build_message data) - 3) (build_message data))"
proof -
  let ?s = "pad_to_byte data"
  let ?m = "preamble @ reserved_field @ to_bits (length ?s div 8) 10 @ ?s"
  have d: "8 dvd length ?m" by (rule frame_dvd)
  have "drop (length (build_message data) - 3) (build_message data)
          = crc_bytes (compute_crc24q (bin_to_binary_data ?m))"
    by (simp add: build_message_split length_crc_bytes)
  moreover have "binary_data_to_bin (build_message data)
          = ?m @ binary_data_to_bin (crc_bytes (compute_crc24q (bin_to_binary_data ?m)))"
    by (simp add: build_message_split binary_data_to_bin_append
        binary_data_to_bin_inverse [OF d])
  ultimately show ?thesis by simp
qed

lemma hd_build_message: "hd (build_message data) = 0xD3"
proof -
  let ?s = "pad_to_byte data"
  let ?rest = "reserved_field @ to_bits (length ?s div 8) 10 @ ?s"
  have p: "length preamble = 8" by (simp add: preamble_def length_to_bits)
  have "bin_to_binary_data (preamble @ ?rest)
          = of_nat (bits_to_uint preamble) # bin_to_binary_data ?rest"
    by (rule bin_to_binary_data_byte [OF p])
  moreover have "bits_to_uint preamble = 0xD3"
    by (simp add: preamble_def bits_to_uint_to_bits)
  ultimately show ?thesis
    by (simp add: build_message_split)
qed

text \<open>
  Claim C3, with the length the frame has. For a body of \<open>L\<close> bytes, \<open>L\<close> at most 1023,
  the framed message has 3 + L + 3 bytes: 3 of header, the body, 3 of CRC. Its first byte
  is 0xD3, the next 6 bits are zero, the 10 bits after them read back as \<open>L\<close>, the body
  follows unchanged, and the frame passes \<open>check_CRC\<close>.
\<close>

theorem build_message_frame:
  assumes "length data = 8 * L" and "L \<le> 1023"
  shows "length (build_message data) = 3 + L + 3
       \<and> hd (build_message data) = 0xD3
       \<and> take 8 (binary_data_to_bin (build_message data)) = to_bits 0xD3 8
       \<and> take 6 (drop 8 (binary_data_to_bin (build_message data))) = replicate 6 False
       \<and> read_message_length (build_message data) = L
       \<and> take (8 * L) (drop 24 (binary_data_to_bin (build_message data))) = data
       \<and> check_CRC (build_message data)"
proof -
  have s: "pad_to_byte data = data"
    using assms(1) by (intro pad_to_byte_whole) simp
  have L: "length (pad_to_byte data) div 8 = L"
    using assms(1) by (simp add: s)
  have r: "reserved_field = replicate 6 False"
    by (simp add: reserved_field_def to_bits_def bin_digits_0)
  have p: "length preamble = 8" by (simp add: preamble_def length_to_bits)
  have b: "binary_data_to_bin (build_message data) =
             preamble @ replicate 6 False @ to_bits L 10 @ data
               @ binary_data_to_bin (drop (length (build_message data) - 3) (build_message data))"
  proof -
    have L': "length data div 8 = L" using assms(1) by simp
    show ?thesis
      using binary_data_to_bin_build_message [of data] by (simp only: s L' r)
  qed
  have "L < 2 ^ 10" using assms(2) by simp
  then have u: "bits_to_uint (to_bits L 10) = L" by (rule bits_to_uint_to_bits)
  have 1: "length (build_message data) = 3 + L + 3"
    by (simp add: length_build_message L)
  have 2: "take 8 (binary_data_to_bin (build_message data)) = to_bits 0xD3 8"
    unfolding b using p by (simp add: preamble_def)
  have 3: "take 6 (drop 8 (binary_data_to_bin (build_message data))) = replicate 6 False"
    unfolding b using p by simp
  have 4: "read_message_length (build_message data) = L"
    unfolding read_message_length_def b using p u by (simp add: length_to_bits)
  have 5: "take (8 * L) (drop 24 (binary_data_to_bin (build_message data))) = data"
    unfolding b using p assms(1) by (simp add: length_to_bits)
  show ?thesis
    using 1 2 3 4 5 hd_build_message check_CRC_build_message by blast
qed

text \<open>The statement on a body of two bytes.\<close>

theorem build_message_frame_witness:
  "length (replicate 16 True) = 8 * 2 \<and> (2 :: nat) \<le> 1023
   \<and> length (build_message (replicate 16 True)) = 8
   \<and> hd (build_message (replicate 16 True)) = 0xD3
   \<and> read_message_length (build_message (replicate 16 True)) = 2
   \<and> check_CRC (build_message (replicate 16 True))"
  using build_message_frame [of "replicate 16 True" 2] by simp

text \<open>
  Claim C3 as the specification words it gives 6 + L + 3 bytes; the frame of the empty
  body has 6 bytes, not 9.
\<close>

theorem build_message_frame_counterexample:
  "length (build_message []) = 6 \<and> length (build_message []) \<noteq> 6 + 0 + 3"
  by (simp add: length_build_message pad_to_byte_def)

section \<open>Properties of the lock-time table\<close>

lemma lock_time_in_range:
  assumes "slot < lock_time_table_size" and "length table = lock_time_table_size"
  shows "lock_time table slot t = Inr (word_of_int (t - table ! slot), table[slot := t])"
  using assms by (simp add: lock_time_def)

text \<open>
  Claim C7. For a slot of the table's domain (0 to 63) and a timestamp \<open>t\<close>, a call of
  \<open>lock_time\<close> succeeds and stores \<open>t\<close> in the slot; a second call with the same slot
  and the same \<open>t\<close> returns the duration 0 and leaves the table as the first call left it.
\<close>

theorem lock_time_same_timestamp:
  assumes "slot < 64" and "length table = 64"
  shows "\<exists>d table1. lock_time table slot t = Inr (d, table1)
           \<and> table1 ! slot = t
           \<and> lock_time table1 slot t = Inr (0, table1)"
proof -
  let ?t1 = "table[slot := t]"
  have s: "slot < lock_time_table_size" and l: "length table = lock_time_table_size"
    using assms by (simp_all add: lock_time_table_size_def)
  have l1: "length ?t1 = lock_time_table_size" using l by simp
  have n: "?t1 ! slot = t" using s l by simp
  have "lock_time ?t1 slot t = Inr (0, ?t1)"
    using lock_time_in_range [OF s l1, of t] n by simp
  then show ?thesis
    using lock_time_in_range [OF s l, of t] n by blast
qed

text \<open>The statement on a table of zeros, slot 5 and timestamp 100.\<close>

theorem lock_time_same_timestamp_witness:
  "(5 :: nat) < 64 \<and> length (replicate 64 (0 :: int)) = 64
   \<and> lock_time (replicate 64 0) 5 100 = Inr (100, (replicate 64 0)[5 := 100])
   \<and> lock_time ((replicate 64 0)[5 := 100]) 5 100 = Inr (0, (replicate 64 0)[5 := 100])"
proof -
  have a: "lock_time (replicate 64 0) 5 100 = Inr (100, (replicate 64 0)[5 := 100])"
    by (simp add: lock_time_def lock_time_table_size_def)
  show ?thesis
    using lock_time_same_timestamp [of 5 "replicate 64 0" 100] a by auto
qed

section \<open>Properties of message type 1005\<close>

lemma bin_digits_nonempty: "bin_digits (Suc w) n \<noteq> []"
  by simp

lemma hd_bin_digits: "hd (bin_digits (Suc w) n) = odd (n div 2 ^ w)"
proof (induction w arbitrary: n)
  case 0
  show ?case by simp
next
  case (Suc w)
  have "hd (bin_digits (Suc (Suc w)) n) = hd (bin_digits (Suc w) (n div 2))"
    using bin_digits_nonempty [of w "n div 2"] by (simp del: bin_digits.simps(2) add: bin_digits.simps(2) [of "Suc w"])
  also have "\<dots> = odd (n div 2 div 2 ^ w)" by (rule Suc)
  also have "n div 2 div 2 ^ w = n div 2 ^ Suc w"
    by (simp add: div_mult2_eq)
  finally show ?case .
qed

lemma bits_to_int_to_bits_signed:
  assumes "- (2 ^ w) \<le> v" and "v < 2 ^ w"
  shows "bits_to_int (to_bits_signed v (Suc w)) = v"
proof -
  define n where "n = nat (v mod 2 ^ Suc w)"
  define bs where "bs = bin_digits (Suc w) n"
  have n: "n < 2 ^ Suc w"
    by (simp add: n_def nat_less_iff)
  have u: "bits_to_uint bs = n"
    using n by (simp only: bs_def bits_to_uint_bin_digits mod_less)
  have l: "length bs = Suc w" unfolding bs_def by (rule length_bin_digits)
  have ne: "bs \<noteq> []" unfolding bs_def by (rule bin_digits_nonempty)
  have h: "hd bs = odd (n div 2 ^ w)" unfolding bs_def by (rule hd_bin_digits)
  have b: "bits_to_int (to_bits_signed v (Suc w))
             = (if odd (n div 2 ^ w) then int n - 2 ^ Suc w else int n)"
    unfolding to_bits_signed_def n_def [symmetric] bs_def [symmetric] bits_to_int_def
    by (simp only: u l ne h not_False_eq_True simp_thms)
  show ?thesis
  proof (cases "0 \<le> v")
    case True
    have "(2 :: int) ^ w \<le> 2 ^ Suc w" by simp
    then have "v < 2 ^ Suc w" using assms(2) by linarith
    then have m: "v mod 2 ^ Suc w = v" using True by (intro mod_pos_pos_trivial)
    have i: "int n = v" unfolding n_def m using True by simp
    have "n < 2 ^ w" using assms(2) i by (metis of_nat_less_numeral_power_cancel_iff)
    then have "n div 2 ^ w = 0" by simp
    then show ?thesis unfolding b using i by simp
  next
    case False
    have p: "(0 :: int) < 2 ^ w" by simp
    have p2: "(2 :: int) ^ Suc w = 2 * 2 ^ w" by simp
    have lo: "0 \<le> v + 2 ^ Suc w" using assms(1) p p2 by linarith
    have hi: "v + 2 ^ Suc w < 2 ^ Suc w" using False by linarith
    have "(v + 2 ^ Suc w) mod 2 ^ Suc w = v + 2 ^ Suc w"
      using lo hi by (rule mod_pos_pos_trivial)
    then have m: "v mod 2 ^ Suc w = v + 2 ^ Suc w" by simp
    have i: "int n = v + 2 ^ Suc w" unfolding n_def m using lo by simp
    have "(2 :: int) ^ w \<le> int n" using assms(1) i p p2 by linarith
    then have ge: "2 ^ w \<le> n" by (metis numeral_power_le_of_nat_cancel_iff)
    have "n div 2 ^ w = 1"
    proof -
      have "n div 2 ^ w < 2" using n by (simp add: less_mult_imp_div_less)
      moreover have "1 \<le> n div 2 ^ w" using ge by (simp add: div_greater_zero_iff Suc_leI)
      ultimately show ?thesis by simp
    qed
    then show ?thesis unfolding b using i by simp
  qed
qed

lemma length_to_bits_scaled: "length (to_bits_scaled v w r) = w"
  by (simp add: to_bits_scaled_def to_bits_signed_def length_bin_digits)

lemma ecef_round_trip:
  assumes "v = real_of_int k" and "- (2 ^ 37) \<le> k * 10000" and "k * 10000 < 2 ^ 37"
  shows "bits_to_double (to_bits_scaled v 38 (1 / 10000)) (1 / 10000) = v"
proof -
  have "round_half_away (v / (1 / 10000)) = k * 10000"
  proof -
    have "v / (1 / 10000) = real_of_int (k * 10000)" using assms(1) by simp
    then show ?thesis by (simp add: round_half_away_def) linarith
  qed
  then have "to_bits_scaled v 38 (1 / 10000) = to_bits_signed (k * 10000) (Suc 37)"
    by (simp add: to_bits_scaled_def)
  then have "bits_to_int (to_bits_scaled v 38 (1 / 10000)) = k * 10000"
    using bits_to_int_to_bits_signed [OF assms(2,3)] by simp
  then show ?thesis
    using assms(1) by (simp add: bits_to_double_def)
qed

text \<open>
  Decoding what was encoded gives the inputs back, for a station id below 4096 and
  coordinates that are whole metres within the range of the 38-bit field.
\<close>

lemma read_MT1005_print_MT1005:
  assumes x: "x = real_of_int kx" "- (2 ^ 37) \<le> kx * 10000" "kx * 10000 < 2 ^ 37"
    and y: "y = real_of_int ky" "- (2 ^ 37) \<le> ky * 10000" "ky * 10000 < 2 ^ 37"
    and z: "z = real_of_int kz" "- (2 ^ 37) \<le> kz * 10000" "kz * 10000 < 2 ^ 37"
    and r: "r < 4096"
  shows "read_MT1005 (print_MT1005 r x y z g1 g2 g3 np so qc) out
           = (0, \<lparr>ref_id = r, ecef_x = x, ecef_y = y, ecef_z = z,
                   gps = g1, glonass = g2, galileo = g3\<rparr>)"
proof -
  define X where "X = to_bits_scaled x 38 (1 / 10000)"
  define Y where "Y = to_bits_scaled y 38 (1 / 10000)"
  define Z where "Z = to_bits_scaled z 38 (1 / 10000)"
  define T where "T = to_bits 1005 12"
  define R where "R = to_bits r 12"
  define I where "I = to_bits 0 6"
  define Q where "Q = to_bits qc 2"
  define data where
    "data = T @ R @ I @ [g1] @ [g2] @ [g3] @ [np] @ X @ [so] @ [False] @ Y @ Q @ Z"
  define frame where "frame = build_message data"
  define C where "C = binary_data_to_bin (drop (length frame - 3) frame)"
  have len: "length X = 38" "length Y = 38" "length Z = 38" "length T = 12" "length R = 12"
    "length I = 6" "length Q = 2"
    by (simp_all add: X_def Y_def Z_def T_def R_def I_def Q_def length_to_bits
        length_to_bits_scaled)
  have ld: "length data = 8 * 19" by (simp add: data_def len)
  have pad: "pad_to_byte data = data"
    using ld by (intro pad_to_byte_whole) simp
  have p: "frame = print_MT1005 r x y z g1 g2 g3 np so qc"
    by (simp only: frame_def data_def print_MT1005_def X_def Y_def Z_def T_def R_def I_def Q_def)
  have bin: "binary_data_to_bin frame = preamble @ reserved_field @ to_bits 19 10 @ data @ C"
    using binary_data_to_bin_build_message [of data] ld
    by (simp only: frame_def [symmetric] C_def pad) simp
  have lh: "length preamble = 8" "length reserved_field = 6" "length (to_bits 19 10) = 10"
    by (simp_all add: preamble_def reserved_field_def length_to_bits)
  have body: "drop 24 (binary_data_to_bin frame) = data @ C"
    by (simp add: bin lh)
  have crc: "check_CRC frame" unfolding frame_def by (rule check_CRC_build_message)
  have f1: "take 12 (data @ C) = T" by (simp add: data_def len)
  have f2: "take 12 (drop 12 (data @ C)) = R" by (simp add: data_def len)
  have f3: "take 1 (drop 30 (data @ C)) = [g1]" by (simp add: data_def len)
  have f4: "take 1 (drop 31 (data @ C)) = [g2]" by (simp add: data_def len)
  have f5: "take 1 (drop 32 (data @ C)) = [g3]" by (simp add: data_def len)
  have f6: "take 38 (drop 34 (data @ C)) = X" by (simp add: data_def len)
  have f7: "take 38 (drop 74 (data @ C)) = Y" by (simp add: data_def len)
  have f8: "take 38 (drop 114 (data @ C)) = Z" by (simp add: data_def len)
  have t: "bits_to_uint T = 1005" unfolding T_def by (rule bits_to_uint_to_bits) simp
  have rr: "bits_to_uint R = r" unfolding R_def using r by (intro bits_to_uint_to_bits) simp
  have b: "(bits_to_uint [g] = 1) = g" for g by (simp add: bits_to_uint_def)
  have xx: "bits_to_double X (1 / 10000) = x" unfolding X_def by (rule ecef_round_trip [OF x])
  have yy: "bits_to_double Y (1 / 10000) = y" unfolding Y_def by (rule ecef_round_trip [OF y])
  have zz: "bits_to_double Z (1 / 10000) = z" unfolding Z_def by (rule ecef_round_trip [OF z])
  show ?thesis
    unfolding p [symmetric] read_MT1005_def Let_def body f1 f2 f3 f4 f5 f6 f7 f8 t rr b xx yy zz
    using crc by simp
qed

text \<open>
  Claim C1. For \<open>ref_id = 4\<close>, the coordinates 4075580.0, 931853.0 and 4801568.0, GPS
  on, GLONASS and Galileo off, and any value of the three remaining arguments,
  \<open>read_MT1005\<close> on what \<open>print_MT1005\<close> returns gives status 0, station id 4 and each
  coordinate within 0.0001 m of the one encoded, whatever the outputs held before.
\<close>

theorem MT1005_round_trip:
  "fst (read_MT1005
          (print_MT1005 4 4075580 931853 4801568 True False False non_physical
             single_oscillator quarter_cycle_indicator) out) = 0
   \<and> ref_id (snd (read_MT1005
          (print_MT1005 4 4075580 931853 4801568 True False False non_physical
             single_oscillator quarter_cycle_indicator) out)) = 4
   \<and> \<bar>ecef_x (snd (read_MT1005
          (print_MT1005 4 4075580 931853 4801568 True False False non_physical
             single_oscillator quarter_cycle_indicator) out)) - 4075580\<bar> \<le> 1 / 10000
   \<and> \<bar>ecef_y (snd (read_MT1005
          (print_MT1005 4 4075580 931853 4801568 True False False non_physical
             single_oscillator quarter_cycle_indicator) out)) - 931853\<bar> \<le> 1 / 10000
   \<and> \<bar>ecef_z (snd (read_MT1005
          (print_MT1005 4 4075580 931853 4801568 True False False non_physical
             single_oscillator quarter_cycle_indicator) out)) - 4801568\<bar> \<le> 1 / 10000"
proof -
  have "read_MT1005
          (print_MT1005 4 4075580 931853 4801568 True False False non_physical
             single_oscillator quarter_cycle_indicator) out
        = (0, \<lparr>ref_id = 4, ecef_x = 4075580, ecef_y = 931853, ecef_z = 4801568,
               gps = True, glonass = False, galileo = False\<rparr>)"
    by (rule read_MT1005_print_MT1005 [where kx = 4075580 and ky = 931853 and kz = 4801568])
       simp_all
  then show ?thesis by simp
qed

end
